theory Spec2Isabelle
  imports Complex_Main "HOL-Library.Word" "HOL-Library.Sublist"
begin

section \<open>The Chromecast control channel of chromecast\_communication.cpp\<close>

text \<open>
  A shallow embedding of \<^verbatim>\<open>modules/stream_out/chromecast/chromecast_communication.cpp\<close>:
  the connection set-up, the message builders with their two request counters, the
  framing done by \<^verbatim>\<open>sendMessage\<close> and the keepalive and reassembly step
  \<^verbatim>\<open>recvPacket\<close>. The object's fields are a record, every call of the outside
  world (sockets, TLS, poll) is an explicit argument or an explicit piece of state,
  and a failing \<^verbatim>\<open>assert\<close> is an error value.
\<close>

subsection \<open>What the file takes from chromecast.h\<close>

text \<open>
  The header \<^verbatim>\<open>chromecast.h\<close> is not among the sources. Its constants are the
  fields of a record that every function below receives, so that each result holds
  for whatever values the header gives them.
\<close>

record chromecast_h =
  PACKET_MAX_LEN :: nat
  PING_WAIT_TIME :: int
  PING_WAIT_RETRIES :: int
  CHROMECAST_CONTROL_PORT :: nat
  APP_ID :: string
  NAMESPACE_DEVICEAUTH :: string
  NAMESPACE_CONNECTION :: string
  NAMESPACE_HEARTBEAT :: string
  NAMESPACE_RECEIVER :: string
  NAMESPACE_MEDIA :: string
  DEFAULT_CHOMECAST_RECEIVER :: string

text \<open>
  Modelled from the spec: \<^verbatim>\<open>PACKET_HEADER_LEN\<close> is defined in chromecast.h; the
  spec gives the header length as 4 bytes. It is taken to be the plain integer
  constant 4, so that arithmetic mixing it with a 32-bit unsigned value is done on
  32 bits.
\<close>

definition PACKET_HEADER_LEN :: nat where
  "PACKET_HEADER_LEN = 4"

definition PONG_WAIT_TIME :: int where
  "PONG_WAIT_TIME = 500"

definition PONG_WAIT_RETRIES :: int where
  "PONG_WAIT_RETRIES = 2"

type_synonym byte = "8 word"

datatype error = AssertionFailed | BufferOverrun

subsection \<open>The object and its constructor\<close>

datatype ProtocolVersion = CASTV2_1_0

datatype PayloadType = STRING | BINARY

record CastMessage =
  protocol_version :: ProtocolVersion
  namespace' :: string
  payload_type :: PayloadType
  source_id :: string
  destination_id :: string
  payload_utf8 :: "string option"
  payload_binary :: "string option"

text \<open>
  The fields of the class, as the constructor initialises them. Handles of TLS
  credentials and sessions are numbers, \<open>None\<close> is the null pointer. The two
  counters are declared in chromecast.h.
  Modelled from the spec: the type of \<^verbatim>\<open>i_receiver_requestId\<close> and
  \<^verbatim>\<open>i_requestId\<close> is missing; the spec calls them monotonically increasing
  integers, so they are natural numbers here.
  The last field, \<open>outbox\<close>, is not a field of the class: it lists the messages
  that have been passed to \<^verbatim>\<open>sendMessage\<close>, oldest first.
\<close>

record ChromecastCommunication =
  i_sock_fd :: int
  p_creds :: "nat option"
  p_tls :: "nat option"
  serverIp :: string
  i_receiver_requestId :: nat
  i_requestId :: nat
  outbox :: "CastMessage list"

definition new_ChromecastCommunication :: ChromecastCommunication where
  "new_ChromecastCommunication =
     \<lparr> i_sock_fd = - 1, p_creds = None, p_tls = None, serverIp = [],
       i_receiver_requestId = 0, i_requestId = 0, outbox = [] \<rparr>"

subsection \<open>connect\<close>

text \<open>
  The resources a call of \<^verbatim>\<open>connect\<close> can hold are kept in a record of their
  own: the sockets that are open and the TLS credentials and sessions that are
  alive. \<^verbatim>\<open>net_Close\<close> and \<^verbatim>\<open>vlc_tls_Delete\<close> remove from it.

  Modelled from the spec: \<^verbatim>\<open>net_ConnectTCP\<close>, \<^verbatim>\<open>net_GetSockAddress\<close>,
  \<^verbatim>\<open>vlc_tls_ClientCreate\<close> and \<^verbatim>\<open>vlc_tls_ClientSessionCreateFD\<close> are
  collaborators outside the file; each either succeeds or fails, and what each one
  answers in a given call is a field of \<open>net_env\<close>. A negative descriptor is a
  failed TCP connect, \<open>None\<close> a failed address lookup or a null pointer.
\<close>

record resources =
  open_fds :: "int set"
  live_creds :: "nat set"
  live_sessions :: "nat set"

record net_env =
  net_ConnectTCP :: "string \<Rightarrow> nat \<Rightarrow> int"
  net_GetSockAddress :: "int \<Rightarrow> string option"
  vlc_tls_ClientCreate :: "nat option"
  vlc_tls_ClientSessionCreateFD :: "nat \<Rightarrow> int \<Rightarrow> string \<Rightarrow> nat option"

definition net_Close :: "int \<Rightarrow> resources \<Rightarrow> resources" where
  "net_Close fd r = r\<lparr>open_fds := open_fds r - {fd}\<rparr>"

definition vlc_tls_Delete :: "nat \<Rightarrow> resources \<Rightarrow> resources" where
  "vlc_tls_Delete k r = r\<lparr>live_creds := live_creds r - {k}\<rparr>"

definition connect ::
  "chromecast_h \<Rightarrow> net_env \<Rightarrow> string \<Rightarrow> nat \<Rightarrow> ChromecastCommunication \<times> resources
     \<Rightarrow> bool \<times> ChromecastCommunication \<times> resources" where
  "connect H E targetIP devicePort0 cr =
     (let (c, r) = cr;
          devicePort = (if devicePort0 = 0 then CHROMECAST_CONTROL_PORT H else devicePort0);
          fd = net_ConnectTCP E targetIP devicePort;
          c = c\<lparr>i_sock_fd := fd\<rparr>
      in if fd < 0 then (False, c, r)
         else
           let r = r\<lparr>open_fds := insert fd (open_fds r)\<rparr> in
           case net_GetSockAddress E fd of
             None \<Rightarrow> (False, c, r)
           | Some psz_localIP \<Rightarrow>
               let c = c\<lparr>serverIp := psz_localIP\<rparr>;
                   c = c\<lparr>p_creds := vlc_tls_ClientCreate E\<rparr>
               in case p_creds c of
                    None \<Rightarrow> (False, c, net_Close fd r)
                  | Some k \<Rightarrow>
                      let r = r\<lparr>live_creds := insert k (live_creds r)\<rparr>;
                          c = c\<lparr>p_tls := vlc_tls_ClientSessionCreateFD E k fd targetIP\<rparr>
                      in case p_tls c of
                           None \<Rightarrow> (False, c, vlc_tls_Delete k (net_Close fd r))
                         | Some s \<Rightarrow>
                             (True, c, r\<lparr>live_sessions := insert s (live_sessions r)\<rparr>))"

definition no_resources :: resources where
  "no_resources = \<lparr> open_fds = {}, live_creds = {}, live_sessions = {} \<rparr>"

text \<open>
  The call of the failing input of C1: the TCP connect gives descriptor 3, the
  lookup of the local address fails. The two later answers are never asked for.
\<close>

definition env_no_local_ip :: net_env where
  "env_no_local_ip =
     \<lparr> net_ConnectTCP = (\<lambda>host port. 3), net_GetSockAddress = (\<lambda>fd. None),
       vlc_tls_ClientCreate = Some 0, vlc_tls_ClientSessionCreateFD = (\<lambda>k fd host. Some 0) \<rparr>"

subsection \<open>Message builders\<close>

text \<open>
  \<^verbatim>\<open>operator<<\<close> on an unsigned integer writes its decimal digits.
\<close>

function dec :: "nat \<Rightarrow> string" where
  "dec n = (if n < 10 then [''0123456789'' ! n]
            else dec (n div 10) @ [''0123456789'' ! (n mod 10)])"
  by pat_completeness auto
termination
  by (relation "measure id") auto

declare dec.simps [simp del]

text \<open>
  \<^verbatim>\<open>buildMessage\<close> fills a \<^verbatim>\<open>CastMessage\<close> and passes it to
  \<^verbatim>\<open>sendMessage\<close>, whose return value it drops. The call is recorded in
  \<open>outbox\<close>; what \<^verbatim>\<open>sendMessage\<close> does with the message is modelled below, on
  its bytes.
\<close>

definition buildMessage ::
  "string \<Rightarrow> string \<Rightarrow> string \<Rightarrow> PayloadType \<Rightarrow> ChromecastCommunication
     \<Rightarrow> ChromecastCommunication" where
  "buildMessage ns payload destinationId payloadType c =
     (let msg = \<lparr> protocol_version = CASTV2_1_0, namespace' = ns,
                   payload_type = payloadType, source_id = ''sender-vlc'',
                   destination_id = destinationId,
                   payload_utf8 = (if payloadType = STRING then Some payload else None),
                   payload_binary = (if payloadType = STRING then None else Some payload) \<rparr>
      in c\<lparr>outbox := outbox c @ [msg]\<rparr>)"

definition pushMediaPlayerMessage ::
  "chromecast_h \<Rightarrow> string \<Rightarrow> string \<Rightarrow> ChromecastCommunication
     \<Rightarrow> error + ChromecastCommunication" where
  "pushMediaPlayerMessage H destinationId payload c =
     (if destinationId = [] then Inl AssertionFailed
      else Inr (buildMessage (NAMESPACE_MEDIA H) payload destinationId STRING c))"

definition msgPing :: "chromecast_h \<Rightarrow> ChromecastCommunication \<Rightarrow> ChromecastCommunication" where
  \<open>msgPing H c =
     buildMessage (NAMESPACE_HEARTBEAT H) ''{"type":"PING"}'' (DEFAULT_CHOMECAST_RECEIVER H) STRING c\<close>

definition msgPong :: "chromecast_h \<Rightarrow> ChromecastCommunication \<Rightarrow> ChromecastCommunication" where
  \<open>msgPong H c =
     buildMessage (NAMESPACE_HEARTBEAT H) ''{"type":"PONG"}'' (DEFAULT_CHOMECAST_RECEIVER H) STRING c\<close>

definition msgConnect ::
  "chromecast_h \<Rightarrow> string \<Rightarrow> ChromecastCommunication \<Rightarrow> ChromecastCommunication" where
  \<open>msgConnect H destinationId c =
     buildMessage (NAMESPACE_CONNECTION H) ''{"type":"CONNECT"}'' destinationId STRING c\<close>

definition msgReceiverClose ::
  "chromecast_h \<Rightarrow> string \<Rightarrow> ChromecastCommunication \<Rightarrow> ChromecastCommunication" where
  \<open>msgReceiverClose H destinationId c =
     buildMessage (NAMESPACE_CONNECTION H) ''{"type":"CLOSE"}'' destinationId STRING c\<close>

definition msgReceiverGetStatus ::
  "chromecast_h \<Rightarrow> ChromecastCommunication \<Rightarrow> ChromecastCommunication" where
  \<open>msgReceiverGetStatus H c =
     (let ss = ''{"type":"GET_STATUS",'' @ ''"requestId":'' @ dec (i_receiver_requestId c) @ ''}'';
          c = c\<lparr>i_receiver_requestId := i_receiver_requestId c + 1\<rparr>
      in buildMessage (NAMESPACE_RECEIVER H) ss (DEFAULT_CHOMECAST_RECEIVER H) STRING c)\<close>

definition msgReceiverLaunchApp ::
  "chromecast_h \<Rightarrow> ChromecastCommunication \<Rightarrow> ChromecastCommunication" where
  \<open>msgReceiverLaunchApp H c =
     (let ss = ''{"type":"LAUNCH",'' @ ''"appId":"'' @ APP_ID H @ ''",''
                 @ ''"requestId":'' @ dec (i_receiver_requestId c) @ ''}'';
          c = c\<lparr>i_receiver_requestId := i_receiver_requestId c + 1\<rparr>
      in buildMessage (NAMESPACE_RECEIVER H) ss (DEFAULT_CHOMECAST_RECEIVER H) STRING c)\<close>

definition msgPlayerGetStatus ::
  "chromecast_h \<Rightarrow> string \<Rightarrow> ChromecastCommunication \<Rightarrow> error + ChromecastCommunication" where
  \<open>msgPlayerGetStatus H destinationId c =
     (let ss = ''{"type":"GET_STATUS",'' @ ''"requestId":'' @ dec (i_requestId c) @ ''}'';
          c = c\<lparr>i_requestId := i_requestId c + 1\<rparr>
      in pushMediaPlayerMessage H destinationId ss c)\<close>

text \<open>
  \<^verbatim>\<open>strncmp(a, b, n) == 0\<close> for a \<open>b\<close> without a zero byte among its first
  \<open>n\<close> characters: the first \<open>n\<close> characters agree.
\<close>

definition strncmp_eq :: "string \<Rightarrow> string \<Rightarrow> nat \<Rightarrow> bool" where
  "strncmp_eq a b n = (take n a = take n b)"

definition GetMedia ::
  "ChromecastCommunication \<Rightarrow> nat \<Rightarrow> string \<Rightarrow> string \<Rightarrow> string \<Rightarrow> string" where
  \<open>GetMedia c i_port title artwork mime =
     (let ss = [];
          ss = (if title \<noteq> [] then
                  (let ss = ss @ ''"metadata":{'' @ '' "metadataType":0''
                              @ '',"title":"'' @ title @ ''"'';
                       ss = (if artwork \<noteq> [] \<and> strncmp_eq artwork ''http'' 4
                             then ss @ '',"images":["'' @ artwork @ ''"]'' else ss)
                   in ss @ ''},'')
                else ss);
          chromecast_url = ''http://'' @ serverIp c @ '':'' @ dec i_port @ ''/stream''
      in ss @ ''"contentId":"'' @ chromecast_url @ ''"''
            @ '',"streamType":"LIVE"''
            @ '',"contentType":"'' @ mime @ ''"'')\<close>

definition msgPlayerLoad ::
  "chromecast_h \<Rightarrow> string \<Rightarrow> nat \<Rightarrow> string \<Rightarrow> string \<Rightarrow> string \<Rightarrow> ChromecastCommunication
     \<Rightarrow> error + ChromecastCommunication" where
  \<open>msgPlayerLoad H destinationId i_port title artwork mime c =
     (let ss = ''{"type":"LOAD",''
                 @ ''"media":{'' @ GetMedia c i_port title artwork mime @ ''},''
                 @ ''"autoplay":"false",''
                 @ ''"requestId":'' @ dec (i_requestId c) @ ''}'';
          c = c\<lparr>i_requestId := i_requestId c + 1\<rparr>
      in pushMediaPlayerMessage H destinationId ss c)\<close>

definition msgPlayerPlay ::
  "chromecast_h \<Rightarrow> string \<Rightarrow> string \<Rightarrow> ChromecastCommunication
     \<Rightarrow> error + ChromecastCommunication" where
  \<open>msgPlayerPlay H destinationId mediaSessionId c =
     (if mediaSessionId = [] then Inl AssertionFailed
      else
        let ss = ''{"type":"PLAY",'' @ ''"mediaSessionId":'' @ mediaSessionId @ '',''
                   @ ''"requestId":'' @ dec (i_requestId c) @ ''}'';
            c = c\<lparr>i_requestId := i_requestId c + 1\<rparr>
        in pushMediaPlayerMessage H destinationId ss c)\<close>

definition msgPlayerStop ::
  "chromecast_h \<Rightarrow> string \<Rightarrow> string \<Rightarrow> ChromecastCommunication
     \<Rightarrow> error + ChromecastCommunication" where
  \<open>msgPlayerStop H destinationId mediaSessionId c =
     (if mediaSessionId = [] then Inl AssertionFailed
      else
        let ss = ''{"type":"STOP",'' @ ''"mediaSessionId":'' @ mediaSessionId @ '',''
                   @ ''"requestId":'' @ dec (i_requestId c) @ ''}'';
            c = c\<lparr>i_requestId := i_requestId c + 1\<rparr>
        in pushMediaPlayerMessage H destinationId ss c)\<close>

definition msgPlayerPause ::
  "chromecast_h \<Rightarrow> string \<Rightarrow> string \<Rightarrow> ChromecastCommunication
     \<Rightarrow> error + ChromecastCommunication" where
  \<open>msgPlayerPause H destinationId mediaSessionId c =
     (if mediaSessionId = [] then Inl AssertionFailed
      else
        let ss = ''{"type":"PAUSE",'' @ ''"mediaSessionId":'' @ mediaSessionId @ '',''
                   @ ''"requestId":'' @ dec (i_requestId c) @ ''}'';
            c = c\<lparr>i_requestId := i_requestId c + 1\<rparr>
        in pushMediaPlayerMessage H destinationId ss c)\<close>

text \<open>
  A C \<^verbatim>\<open>float\<close>: a finite value, an infinity or a NaN. The two comparisons of
  \<^verbatim>\<open>msgPlayerSetVolume\<close> are against the constants 0.0 and 1.0; a comparison with
  a NaN is false. How the stream writes a float (\<^verbatim>\<open>operator<<\<close> of the C++
  library) is the argument \<open>show_float\<close> of the function.
\<close>

datatype cfloat = Finite real | PlusInf | MinusInf | NaN

fun float_less :: "cfloat \<Rightarrow> real \<Rightarrow> bool" where
  "float_less (Finite x) y = (x < y)"
| "float_less MinusInf y = True"
| "float_less PlusInf y = False"
| "float_less NaN y = False"

fun float_greater :: "cfloat \<Rightarrow> real \<Rightarrow> bool" where
  "float_greater (Finite x) y = (x > y)"
| "float_greater PlusInf y = True"
| "float_greater MinusInf y = False"
| "float_greater NaN y = False"

definition msgPlayerSetVolume ::
  "chromecast_h \<Rightarrow> (cfloat \<Rightarrow> string) \<Rightarrow> string \<Rightarrow> string \<Rightarrow> cfloat \<Rightarrow> bool
     \<Rightarrow> ChromecastCommunication \<Rightarrow> error + ChromecastCommunication" where
  \<open>msgPlayerSetVolume H show_float destinationId mediaSessionId f_volume b_mute c =
     (if mediaSessionId = [] then Inl AssertionFailed
      else if float_less f_volume 0 \<or> float_greater f_volume 1 then Inr c
      else
        let ss = ''{"type":"SET_VOLUME",''
                   @ ''"volume":{"level":'' @ show_float f_volume
                   @ '',"muted":'' @ (if b_mute then ''true'' else ''false'') @ ''},''
                   @ ''"mediaSessionId":'' @ mediaSessionId @ '',''
                   @ ''"requestId":'' @ dec (i_requestId c) @ ''}'';
            c = c\<lparr>i_requestId := i_requestId c + 1\<rparr>
        in pushMediaPlayerMessage H destinationId ss c)\<close>

definition msgPlayerSeek ::
  "chromecast_h \<Rightarrow> string \<Rightarrow> string \<Rightarrow> string \<Rightarrow> ChromecastCommunication
     \<Rightarrow> error + ChromecastCommunication" where
  \<open>msgPlayerSeek H destinationId mediaSessionId currentTime c =
     (if mediaSessionId = [] then Inl AssertionFailed
      else
        let ss = ''{"type":"SEEK",'' @ ''"currentTime":'' @ currentTime @ '',''
                   @ ''"mediaSessionId":'' @ mediaSessionId @ '',''
                   @ ''"requestId":'' @ dec (i_requestId c) @ ''}'';
            c = c\<lparr>i_requestId := i_requestId c + 1\<rparr>
        in pushMediaPlayerMessage H destinationId ss c)\<close>

subsection \<open>sendMessage\<close>

text \<open>
  Modelled from the spec: \<^verbatim>\<open>SetDWBE\<close> and \<^verbatim>\<open>U32_AT\<close> come from
  vlc\_common.h; the spec fixes the length prefix as four bytes, big-endian.
  \<^verbatim>\<open>U32_AT\<close> reads the first four bytes of the buffer it is given.
\<close>

definition SetDWBE :: "32 word \<Rightarrow> byte list" where
  "SetDWBE w =
     [of_nat (unat w div 16777216), of_nat (unat w div 65536),
      of_nat (unat w div 256), of_nat (unat w)]"

definition U32_AT :: "byte list \<Rightarrow> 32 word" where
  "U32_AT p =
     of_nat (((unat (p ! 0) * 256 + unat (p ! 1)) * 256 + unat (p ! 2)) * 256 + unat (p ! 3))"

datatype vlc_code = VLC_SUCCESS | VLC_ENOMEM | VLC_EGENERIC

text \<open>
  \<^verbatim>\<open>sendMessage\<close> on the bytes \<open>msg\<close> that the protocol-buffer library
  serialises the message to (\<^verbatim>\<open>ByteSize\<close> is their number). Whether the
  allocation succeeds and what \<^verbatim>\<open>tls_Send\<close> answers are given by \<open>send_env\<close>.
  The result is the return code and the buffer handed to \<^verbatim>\<open>tls_Send\<close>, if the
  call got that far.
\<close>

record send_env =
  new_ok :: bool
  tls_Send :: "byte list \<Rightarrow> int"

definition sendMessage :: "send_env \<Rightarrow> byte list \<Rightarrow> vlc_code \<times> byte list option" where
  "sendMessage E msg =
     (let i_size = length msg in
      if \<not> new_ok E then (VLC_ENOMEM, None)
      else
        let p_data = SetDWBE (of_nat i_size) @ msg;
            i_ret = tls_Send E p_data
        in if i_ret = int (PACKET_HEADER_LEN + i_size) then (VLC_SUCCESS, Some p_data)
           else (VLC_EGENERIC, Some p_data))"

subsection \<open>recvPacket\<close>

text \<open>
  Modelled from the spec: \<^verbatim>\<open>tls_Recv\<close> is the transport's receive,
  \<open>receive(buffer, max_len)\<close>, answering a number of bytes read, 0 when the peer
  has closed, or a negative number on error. What the peer delivers is a list of
  events, consumed in order: a chunk of bytes, a close, or an error. A read takes
  at most \<open>len\<close> bytes of the chunk in front and leaves the rest of it for the next
  read; a list that has run out reads as closed.
\<close>

datatype rd = Data "byte list" | Closed | Failed nat

fun tls_Recv :: "rd list \<Rightarrow> nat \<Rightarrow> int \<times> byte list \<times> rd list" where
  "tls_Recv [] len = (0, [], [])"
| "tls_Recv (Closed # s) len = (0, [], s)"
| "tls_Recv (Failed k # s) len = (- 1 - int k, [], s)"
| "tls_Recv (Data bs # s) len =
     (if length bs \<le> len then (int (length bs), bs, s)
      else (int len, take len bs, Data (drop len bs) # s))"

text \<open>
  What \<^verbatim>\<open>vlc_poll_i11e\<close> answered: \<open>PollFailed\<close> is -1 with an \<open>errno\<close> other
  than \<open>EINTR\<close>, \<open>PollInterrupted\<close> is -1 with \<open>EINTR\<close>, \<open>PollTimeout\<close> is 0 and
  \<open>PollReady\<close> a positive count. The flag says whether \<open>POLLIN\<close> is set in
  \<open>revents\<close>; after a timeout it is not.
\<close>

datatype poll_result = PollFailed | PollInterrupted bool | PollTimeout | PollReady bool

fun revents_POLLIN :: "poll_result \<Rightarrow> bool" where
  "revents_POLLIN (PollInterrupted b) = b"
| "revents_POLLIN (PollReady b) = b"
| "revents_POLLIN PollFailed = False"
| "revents_POLLIN PollTimeout = False"

text \<open>
  The caller's variables that \<^verbatim>\<open>recvPacket\<close> reads and writes through its
  pointer and reference parameters. The two counts are 32-bit unsigned integers;
  the delay and the number of retries are ints that the function only sets to
  constants or lowers by one, and they are integers here.
\<close>

record recv_state =
  b_msgReceived :: bool
  i_payloadSize :: "32 word"
  pi_received :: "32 word"
  p_data :: "byte list"
  pb_pingTimeout :: bool
  pi_wait_delay :: int
  pi_wait_retries :: int

definition store :: "byte list \<Rightarrow> nat \<Rightarrow> byte list \<Rightarrow> byte list" where
  "store buf off bs = take off buf @ bs @ drop (off + length bs) buf"

text \<open>
  One call \<^verbatim>\<open>tls_Recv(p_tls, p_data + off, len)\<close>. A request that reaches past
  the end of the buffer is the error \<open>BufferOverrun\<close>.
\<close>

definition recv_into ::
  "nat \<Rightarrow> nat \<Rightarrow> byte list \<Rightarrow> rd list \<Rightarrow> error + (int \<times> byte list \<times> rd list)" where
  "recv_into off len buf s =
     (if length buf < off + len then Inl BufferOverrun
      else case tls_Recv s len of (i_ret, got, s') \<Rightarrow> Inr (i_ret, store buf off got, s'))"

text \<open>Lines 153 to 179: the keepalive bookkeeping. \<open>Some 0\<close> is the
  \<^verbatim>\<open>return 0\<close> of line 160.\<close>

definition keepalive :: "chromecast_h \<Rightarrow> poll_result \<Rightarrow> recv_state \<Rightarrow> int option \<times> recv_state" where
  "keepalive H val st =
     (if val = PollTimeout then
        (if pb_pingTimeout st then
           (if pi_wait_retries st = 0 then (Some 0, st)
            else (None, st\<lparr>pi_wait_retries := pi_wait_retries st - 1, pb_pingTimeout := True\<rparr>))
         else (None, st\<lparr>pi_wait_delay := PONG_WAIT_TIME, pi_wait_retries := PONG_WAIT_RETRIES,
                         pb_pingTimeout := True\<rparr>))
      else (None, st\<lparr>pb_pingTimeout := False, pi_wait_delay := PING_WAIT_TIME H,
                      pi_wait_retries := PING_WAIT_RETRIES H\<rparr>))"

text \<open>
  How a block of the function ends: with a \<^verbatim>\<open>return\<close>, or by running on to
  the statement after it.
\<close>

datatype exit = Returned | FellThrough

text \<open>
  The length arguments of the three \<^verbatim>\<open>tls_Recv\<close> calls: for the header
  (line 193), for a payload that is dropped (lines 210 to 214) and for a payload that
  is kept (line 228). The arithmetic is that of 32-bit unsigned integers.
\<close>

definition header_request :: "recv_state \<Rightarrow> nat" where
  "header_request st = unat (4 - pi_received st)"

definition drain_request :: "chromecast_h \<Rightarrow> recv_state \<Rightarrow> nat" where
  "drain_request H st =
     (let i_maxPayloadSize = (of_nat (PACKET_MAX_LEN H) - 4 :: 32 word);
          i_size = i_payloadSize st - (pi_received st - 4)
      in unat (if i_size > i_maxPayloadSize then i_maxPayloadSize else i_size))"

definition payload_request :: "recv_state \<Rightarrow> nat" where
  "payload_request st = unat (i_payloadSize st - (pi_received st - 4))"

text \<open>Lines 190 to 197: the loop that receives the header.\<close>

function recv_header :: "recv_state \<Rightarrow> rd list \<Rightarrow> error + (exit \<times> int \<times> recv_state \<times> rd list)" where
  "recv_header st s =
     (if pi_received st < 4 then
        (case recv_into (unat (pi_received st)) (header_request st) (p_data st) s of
           Inl e \<Rightarrow> Inl e
         | Inr (i_ret, buf, s') \<Rightarrow>
             if i_ret \<le> 0 then Inr (Returned, i_ret, st\<lparr>p_data := buf\<rparr>, s')
             else recv_header (st\<lparr>p_data := buf, pi_received := pi_received st + word_of_int i_ret\<rparr>) s')
      else Inr (FellThrough, 0, st, s))"
  by pat_completeness auto
termination
proof (relation "measure (\<lambda>(st, s). 4 - unat (pi_received st))", goal_cases)
  case 1
  show ?case by simp
next
  case (2 st s x2 i_ret y buf s')
  have bound: "r \<le> int len" if "tls_Recv t len = (r, got, t')" for t len r got t'
    using that by (cases "(t, len)" rule: tls_Recv.cases) (auto split: if_splits)
  from 2 have lt: "unat (pi_received st) < 4"
    by (simp add: word_less_nat_alt)
  then have req: "unat (4 - pi_received st) = 4 - unat (pi_received st)"
    by (simp add: unat_sub word_le_nat_alt)
  from 2 obtain got where "tls_Recv s (unat (4 - pi_received st)) = (i_ret, got, s')"
    by (auto simp: recv_into_def header_request_def split: if_splits prod.splits)
  from bound [OF this] req have le: "i_ret \<le> int (4 - unat (pi_received st))"
    by simp
  define k where "k = nat i_ret"
  from 2 le have k: "i_ret = int k" "0 < k" "k \<le> 4 - unat (pi_received st)"
    by (simp_all add: k_def)
  have uk: "unat (of_nat k :: 32 word) = k"
    using k(3) by (simp add: unat_of_nat)
  have "unat (pi_received st) + unat (of_nat k :: 32 word) < 2 ^ LENGTH(32)"
    using uk k(3) lt by simp
  then have "unat (pi_received st + of_nat k) = unat (pi_received st) + k"
    using uk by (simp add: unat_add_lem [THEN iffD1])
  then show ?case
    using lt k by simp
qed

declare recv_header.simps [simp del]

text \<open>Lines 199 to 238: the payload, dropped when it is declared too long.\<close>

definition recv_payload ::
  "chromecast_h \<Rightarrow> recv_state \<Rightarrow> rd list \<Rightarrow> error + (exit \<times> int \<times> recv_state \<times> rd list)" where
  "recv_payload H st0 s =
     (if length (p_data st0) < 4 then Inl BufferOverrun
      else
        let st = st0\<lparr>i_payloadSize := U32_AT (p_data st0)\<rparr>;
            i_maxPayloadSize = (of_nat (PACKET_MAX_LEN H) - 4 :: 32 word)
        in if i_payloadSize st > i_maxPayloadSize then
             (let i_size = drain_request H st
              in case recv_into 4 i_size (p_data st) s of
                   Inl e \<Rightarrow> Inl e
                 | Inr (i_ret, buf, s') \<Rightarrow>
                     if i_ret \<le> 0 then Inr (Returned, i_ret, st\<lparr>p_data := buf\<rparr>, s')
                     else
                       let st = st\<lparr>p_data := buf,
                                   pi_received := pi_received st + word_of_int i_ret\<rparr>
                       in if pi_received st < i_payloadSize st + 4
                          then Inr (Returned, i_ret, st, s')
                          else Inr (Returned, - 1, st\<lparr>pi_received := 0\<rparr>, s'))
           else
             (case recv_into (unat (pi_received st)) (payload_request st) (p_data st) s of
                Inl e \<Rightarrow> Inl e
              | Inr (i_ret, buf, s') \<Rightarrow>
                  if i_ret \<le> 0 then Inr (Returned, i_ret, st\<lparr>p_data := buf\<rparr>, s')
                  else
                    let st = st\<lparr>p_data := buf,
                                pi_received := pi_received st + word_of_int i_ret\<rparr>
                    in if pi_received st < i_payloadSize st + 4
                       then Inr (Returned, i_ret, st, s')
                       else if pi_received st \<noteq> i_payloadSize st + 4
                       then Inl AssertionFailed
                       else Inr (FellThrough, i_ret,
                                 st\<lparr>pi_received := 0, b_msgReceived := True\<rparr>, s')))"

text \<open>Lines 182 to 239: what is done when \<open>POLLIN\<close> is set.\<close>

definition recv_data ::
  "chromecast_h \<Rightarrow> recv_state \<Rightarrow> rd list \<Rightarrow> error + (exit \<times> int \<times> recv_state \<times> rd list)" where
  "recv_data H st s =
     (case recv_header st s of
        Inl e \<Rightarrow> Inl e
      | Inr (Returned, i_ret, st', s') \<Rightarrow> Inr (Returned, i_ret, st', s')
      | Inr (FellThrough, i_ret, st', s') \<Rightarrow> recv_payload H st' s')"

definition recvPacket ::
  "chromecast_h \<Rightarrow> poll_result \<Rightarrow> recv_state \<Rightarrow> rd list \<Rightarrow> error + (int \<times> recv_state \<times> rd list)" where
  "recvPacket H val st0 s =
     (if val = PollFailed then Inr (- 1, st0, s)
      else
        case keepalive H val st0 of
          (Some r, st) \<Rightarrow> Inr (r, st, s)
        | (None, st) \<Rightarrow>
            (case (if revents_POLLIN val then recv_data H st s
                   else Inr (FellThrough, 0, st, s)) of
               Inl e \<Rightarrow> Inl e
             | Inr (Returned, i_ret, st', s') \<Rightarrow> Inr (i_ret, st', s')
             | Inr (FellThrough, i_ret, st', s') \<Rightarrow>
                 Inr (if val = PollInterrupted True \<or> val = PollInterrupted False then 1 else i_ret,
                      st', s')))"

text \<open>
  The caller's loop, as far as the claims need it: \<^verbatim>\<open>recvPacket\<close> is called
  again and again, each time with data waiting, until a call reports a complete
  message, returns a value that is not positive, or fails. The first argument
  bounds the number of calls.
\<close>

datatype outcome =
  Complete recv_state "rd list"
  | Stopped int recv_state "rd list"
  | Crashed error
  | Pending recv_state "rd list"

fun deliver :: "chromecast_h \<Rightarrow> nat \<Rightarrow> recv_state \<Rightarrow> rd list \<Rightarrow> outcome" where
  "deliver H 0 st s = Pending st s"
| "deliver H (Suc k) st s =
     (case recvPacket H (PollReady True) st s of
        Inl e \<Rightarrow> Crashed e
      | Inr (i_ret, st', s') \<Rightarrow>
          if i_ret \<le> 0 then Stopped i_ret st' s'
          else if b_msgReceived st' then Complete st' s'
          else deliver H k st' s')"

subsection \<open>Notions used to state the properties\<close>

text \<open>One possible chromecast.h, with a small packet buffer, for the examples.\<close>

definition example_h :: chromecast_h where
  "example_h =
     \<lparr> PACKET_MAX_LEN = 16, PING_WAIT_TIME = 6000, PING_WAIT_RETRIES = 0,
       CHROMECAST_CONTROL_PORT = 8009, APP_ID = ''CC1AD845'',
       NAMESPACE_DEVICEAUTH = ''urn:x-cast:com.google.cast.tp.deviceauth'',
       NAMESPACE_CONNECTION = ''urn:x-cast:com.google.cast.tp.connection'',
       NAMESPACE_HEARTBEAT = ''urn:x-cast:com.google.cast.tp.heartbeat'',
       NAMESPACE_RECEIVER = ''urn:x-cast:com.google.cast.receiver'',
       NAMESPACE_MEDIA = ''urn:x-cast:com.google.cast.media'',
       DEFAULT_CHOMECAST_RECEIVER = ''receiver-0'' \<rparr>"

definition example_comm :: ChromecastCommunication where
  "example_comm = new_ChromecastCommunication\<lparr>serverIp := ''10.0.0.5''\<rparr>"

text \<open>A volume level inside the closed interval from 0.0 to 1.0.\<close>

definition in_unit_interval :: "cfloat \<Rightarrow> bool" where
  "in_unit_interval f = (case f of Finite x \<Rightarrow> 0 \<le> x \<and> x \<le> 1 | _ \<Rightarrow> False)"


text \<open>The text of the message ends with the field \<open>requestId\<close> holding \<open>n\<close>.\<close>

definition carries_requestId :: "nat \<Rightarrow> CastMessage \<Rightarrow> bool" where
  \<open>carries_requestId n msg =
     (case payload_utf8 msg of
        None \<Rightarrow> False
      | Some p \<Rightarrow> suffix (''"requestId":'' @ dec n @ ''}'') p)\<close>

text \<open>Between \<open>c\<close> and \<open>c'\<close> exactly one message has been passed to
  \<^verbatim>\<open>sendMessage\<close>.\<close>

definition sent_one :: "ChromecastCommunication \<Rightarrow> ChromecastCommunication \<Rightarrow> bool" where
  "sent_one c c' = (outbox c' \<noteq> [] \<and> butlast (outbox c') = outbox c)"

text \<open>The text of the one message a call has sent, if it has sent exactly one.\<close>

definition sent_payload ::
  "ChromecastCommunication \<Rightarrow> error + ChromecastCommunication \<Rightarrow> string option" where
  "sent_payload c r =
     (case r of
        Inl e \<Rightarrow> None
      | Inr c' \<Rightarrow> if sent_one c c' then payload_utf8 (last (outbox c')) else None)"

text \<open>
  A call has used the receiver counter: that counter is one more, the other one is
  unchanged, and the one message sent carries the old value. Likewise for the
  media-player counter, for a call that can fail.
\<close>

definition receiver_request :: "ChromecastCommunication \<Rightarrow> ChromecastCommunication \<Rightarrow> bool" where
  "receiver_request c c' =
     (i_receiver_requestId c' = i_receiver_requestId c + 1 \<and> i_requestId c' = i_requestId c
      \<and> sent_one c c' \<and> carries_requestId (i_receiver_requestId c) (last (outbox c')))"

definition player_request ::
  "ChromecastCommunication \<Rightarrow> error + ChromecastCommunication \<Rightarrow> bool" where
  "player_request c r =
     (case r of
        Inl e \<Rightarrow> False
      | Inr c' \<Rightarrow>
          i_requestId c' = i_requestId c + 1 \<and> i_receiver_requestId c' = i_receiver_requestId c
          \<and> sent_one c c' \<and> carries_requestId (i_requestId c) (last (outbox c')))"

text \<open>The two pieces of text a media descriptor is looked at for: the entry that
  forwards the artwork, and the part from the content URL on.\<close>

definition images_entry :: "string \<Rightarrow> string" where
  \<open>images_entry artwork = '',"images":["'' @ artwork @ ''"]''\<close>

definition media_tail :: "ChromecastCommunication \<Rightarrow> nat \<Rightarrow> string \<Rightarrow> string" where
  \<open>media_tail c i_port mime =
     ''"contentId":"'' @ (''http://'' @ serverIp c @ '':'' @ dec i_port @ ''/stream'') @ ''"''
       @ '',"streamType":"LIVE"'' @ '',"contentType":"'' @ mime @ ''"''\<close>

text \<open>
  What follows is used to state the properties of \<^verbatim>\<open>recvPacket\<close>. A frame
  reaches the receiver as a list of chunks, none of them empty. \<open>frame_of\<close> is the
  frame of a payload, the buffer that \<^verbatim>\<open>sendMessage\<close> builds; a payload
  \<open>fits\<close> when it is no longer than \<open>PACKET_MAX_LEN - PACKET_HEADER_LEN\<close> (the
  constant itself being at least 4 and a 32-bit value).
\<close>

definition chunks :: "byte list list \<Rightarrow> bool" where
  "chunks cs = ([] \<notin> set cs)"

definition frame_of :: "byte list \<Rightarrow> byte list" where
  "frame_of payload = SetDWBE (of_nat (length payload)) @ payload"

definition fits :: "chromecast_h \<Rightarrow> byte list \<Rightarrow> bool" where
  "fits H payload =
     (4 \<le> PACKET_MAX_LEN H \<and> PACKET_MAX_LEN H < 4294967296
      \<and> length payload \<le> PACKET_MAX_LEN H - 4)"

text \<open>
  The caller's variables after a call that found data (lines 175 to 178);
  after the call that completed the frame of \<open>payload\<close>; and after a call in
  which a read failed when \<open>j\<close> bytes of that frame had been received. A failing
  read is one that answers 0 or a negative number.
\<close>

definition data_arrived :: "chromecast_h \<Rightarrow> recv_state \<Rightarrow> recv_state" where
  "data_arrived H st =
     st\<lparr>pb_pingTimeout := False, pi_wait_delay := PING_WAIT_TIME H,
        pi_wait_retries := PING_WAIT_RETRIES H\<rparr>"

definition completed :: "chromecast_h \<Rightarrow> byte list \<Rightarrow> recv_state \<Rightarrow> recv_state" where
  "completed H payload st =
     st\<lparr>b_msgReceived := True, i_payloadSize := of_nat (length payload), pi_received := 0,
        p_data := frame_of payload @ drop (4 + length payload) (p_data st),
        pb_pingTimeout := False, pi_wait_delay := PING_WAIT_TIME H,
        pi_wait_retries := PING_WAIT_RETRIES H\<rparr>"

fun failure_code :: "rd \<Rightarrow> int option" where
  "failure_code (Data bs) = None"
| "failure_code Closed = Some 0"
| "failure_code (Failed e) = Some (- 1 - int e)"

definition interrupted :: "chromecast_h \<Rightarrow> byte list \<Rightarrow> nat \<Rightarrow> recv_state \<Rightarrow> recv_state" where
  "interrupted H payload j st =
     st\<lparr>i_payloadSize := (if 4 \<le> j then of_nat (length payload) else i_payloadSize st),
        pi_received := of_nat j,
        p_data := take j (frame_of payload) @ drop j (p_data st),
        pb_pingTimeout := False, pi_wait_delay := PING_WAIT_TIME H,
        pi_wait_retries := PING_WAIT_RETRIES H\<rparr>"

text \<open>
  The accumulator is consistent: the buffer holds \<open>PACKET_MAX_LEN\<close> bytes and, once
  the header is there, the count is at most 4 plus the length the header declares.
\<close>

definition consistent :: "chromecast_h \<Rightarrow> recv_state \<Rightarrow> bool" where
  "consistent H st =
     (length (p_data st) = PACKET_MAX_LEN H
      \<and> (4 \<le> pi_received st \<longrightarrow> unat (pi_received st) \<le> 4 + unat (U32_AT (p_data st))))"

text \<open>
  The caller's variables before the first call, with the 16-byte buffer of
  \<open>example_h\<close>, and in the middle of a frame with a 3-byte payload; an environment in
  which sending succeeds; and the bytes the caller takes as the message.
\<close>

definition example_recv :: recv_state where
  "example_recv =
     \<lparr> b_msgReceived = False, i_payloadSize = 0, pi_received = 0,
       p_data = [0, 0, 0, 0, 0, 0, 0, 0, 0, 0, 0, 0, 0, 0, 0, 0],
       pb_pingTimeout = False, pi_wait_delay = 6000, pi_wait_retries = 0 \<rparr>"

definition example_recv_mid :: recv_state where
  "example_recv_mid =
     example_recv\<lparr>i_payloadSize := 3, pi_received := 5,
                  p_data := [0, 0, 0, 3, 1, 0, 0, 0, 0, 0, 0, 0, 0, 0, 0, 0]\<rparr>"

definition example_send :: send_env where
  "example_send = \<lparr> new_ok = True, tls_Send = (\<lambda>buf. int (length buf)) \<rparr>"

definition payload_of :: "recv_state \<Rightarrow> byte list" where
  "payload_of st = take (unat (i_payloadSize st)) (drop PACKET_HEADER_LEN (p_data st))"

section \<open>Properties\<close>

subsection \<open>connect\<close>

text \<open>
  The two later failure paths of \<^verbatim>\<open>connect\<close> give back what the call has
  acquired: the set of open sockets and the set of live credentials are as before.
\<close>

lemma connect_creds_failure_releases:
  "net_ConnectTCP E host (if port = 0 then CHROMECAST_CONTROL_PORT H else port) = fd \<Longrightarrow>
   0 \<le> fd \<Longrightarrow> fd \<notin> open_fds r \<Longrightarrow>
   net_GetSockAddress E fd = Some ip \<Longrightarrow> vlc_tls_ClientCreate E = None \<Longrightarrow>
   connect H E host port (c, r)
     = (False, c\<lparr>i_sock_fd := fd, serverIp := ip, p_creds := None\<rparr>, r)"
  by (simp add: connect_def net_Close_def Let_def)

lemma connect_session_failure_releases:
  "net_ConnectTCP E host (if port = 0 then CHROMECAST_CONTROL_PORT H else port) = fd \<Longrightarrow>
   0 \<le> fd \<Longrightarrow> fd \<notin> open_fds r \<Longrightarrow>
   net_GetSockAddress E fd = Some ip \<Longrightarrow> vlc_tls_ClientCreate E = Some k \<Longrightarrow>
   k \<notin> live_creds r \<Longrightarrow> vlc_tls_ClientSessionCreateFD E k fd host = None \<Longrightarrow>
   connect H E host port (c, r)
     = (False, c\<lparr>i_sock_fd := fd, serverIp := ip, p_creds := Some k, p_tls := None\<rparr>, r)"
  by (simp add: connect_def net_Close_def vlc_tls_Delete_def Let_def)

lemma connect_tcp_failure:
  "net_ConnectTCP E host (if port = 0 then CHROMECAST_CONTROL_PORT H else port) = fd \<Longrightarrow>
   fd < 0 \<Longrightarrow> connect H E host port (c, r) = (False, c\<lparr>i_sock_fd := fd\<rparr>, r)"
  by (simp add: connect_def Let_def)

text \<open>
  C1 (the code departs from the claim). When the TCP connect succeeds with
  descriptor 3 and the lookup of the local address fails, \<^verbatim>\<open>connect\<close> returns
  false, but socket 3 is still open afterwards and \<open>i_sock_fd\<close> still names it: this
  path returns without the \<^verbatim>\<open>net_Close\<close> that the two later failure paths
  perform.
\<close>

theorem connect_local_ip_failure_leaks_socket:
  "connect H env_no_local_ip host 8009 (new_ChromecastCommunication, no_resources)
     = (False, new_ChromecastCommunication\<lparr>i_sock_fd := 3\<rparr>, no_resources\<lparr>open_fds := {3}\<rparr>)"
  by (simp add: connect_def env_no_local_ip_def new_ChromecastCommunication_def no_resources_def)

subsection \<open>The request counters\<close>

lemma receiver_GetStatus: "receiver_request c (msgReceiverGetStatus H c)"
  by (simp add: receiver_request_def msgReceiverGetStatus_def buildMessage_def Let_def
      sent_one_def carries_requestId_def suffix_def)

lemma receiver_LaunchApp: "receiver_request c (msgReceiverLaunchApp H c)"
  by (simp add: receiver_request_def msgReceiverLaunchApp_def buildMessage_def Let_def
      sent_one_def carries_requestId_def suffix_def)

lemma player_GetStatus: "d \<noteq> [] \<Longrightarrow> player_request c (msgPlayerGetStatus H d c)"
  by (simp add: player_request_def msgPlayerGetStatus_def pushMediaPlayerMessage_def
      buildMessage_def Let_def sent_one_def carries_requestId_def suffix_def)

lemma player_Load: "d \<noteq> [] \<Longrightarrow> player_request c (msgPlayerLoad H d port t a m c)"
  by (simp add: player_request_def msgPlayerLoad_def pushMediaPlayerMessage_def
      buildMessage_def Let_def sent_one_def carries_requestId_def suffix_def)

lemma player_Play: "d \<noteq> [] \<Longrightarrow> m \<noteq> [] \<Longrightarrow> player_request c (msgPlayerPlay H d m c)"
  by (simp add: player_request_def msgPlayerPlay_def pushMediaPlayerMessage_def
      buildMessage_def Let_def sent_one_def carries_requestId_def suffix_def)

lemma player_Stop: "d \<noteq> [] \<Longrightarrow> m \<noteq> [] \<Longrightarrow> player_request c (msgPlayerStop H d m c)"
  by (simp add: player_request_def msgPlayerStop_def pushMediaPlayerMessage_def
      buildMessage_def Let_def sent_one_def carries_requestId_def suffix_def)

lemma player_Pause: "d \<noteq> [] \<Longrightarrow> m \<noteq> [] \<Longrightarrow> player_request c (msgPlayerPause H d m c)"
  by (simp add: player_request_def msgPlayerPause_def pushMediaPlayerMessage_def
      buildMessage_def Let_def sent_one_def carries_requestId_def suffix_def)

lemma in_unit_interval_guard:
  "in_unit_interval f \<Longrightarrow> \<not> float_less f 0 \<and> \<not> float_greater f 1"
  by (cases f) (auto simp: in_unit_interval_def)

lemma player_SetVolume:
  "d \<noteq> [] \<Longrightarrow> m \<noteq> [] \<Longrightarrow> in_unit_interval f \<Longrightarrow>
   player_request c (msgPlayerSetVolume H sf d m f b c)"
  by (simp add: player_request_def msgPlayerSetVolume_def pushMediaPlayerMessage_def
      buildMessage_def Let_def sent_one_def carries_requestId_def suffix_def
      in_unit_interval_guard)

lemma player_Seek: "d \<noteq> [] \<Longrightarrow> m \<noteq> [] \<Longrightarrow> player_request c (msgPlayerSeek H d m t c)"
  by (simp add: player_request_def msgPlayerSeek_def pushMediaPlayerMessage_def
      buildMessage_def Let_def sent_one_def carries_requestId_def suffix_def)

text \<open>
  C5, as amended. Both counters are 0 in a new object.
  \<^verbatim>\<open>msgReceiverGetStatus\<close> and \<^verbatim>\<open>msgReceiverLaunchApp\<close> add one to the receiver
  counter only and send one message whose \<open>requestId\<close> is the old value. Each of
  the seven media-player calls does the same with the media-player counter, provided
  that the destination id is not empty, that the media-session id (where the call
  takes one) is not empty, and that the level given to \<^verbatim>\<open>msgPlayerSetVolume\<close>
  lies between 0.0 and 1.0.
\<close>

theorem request_counters_independent:
  assumes "destinationId \<noteq> []" and "mediaSessionId \<noteq> []" and "in_unit_interval f_volume"
  shows "i_receiver_requestId new_ChromecastCommunication = 0
       \<and> i_requestId new_ChromecastCommunication = 0
       \<and> receiver_request c (msgReceiverGetStatus H c)
       \<and> receiver_request c (msgReceiverLaunchApp H c)
       \<and> player_request c (msgPlayerGetStatus H destinationId c)
       \<and> player_request c (msgPlayerLoad H destinationId i_port title artwork mime c)
       \<and> player_request c (msgPlayerPlay H destinationId mediaSessionId c)
       \<and> player_request c (msgPlayerStop H destinationId mediaSessionId c)
       \<and> player_request c (msgPlayerPause H destinationId mediaSessionId c)
       \<and> player_request c
            (msgPlayerSetVolume H show_float destinationId mediaSessionId f_volume b_mute c)
       \<and> player_request c (msgPlayerSeek H destinationId mediaSessionId currentTime c)"
  using assms
  by (simp add: new_ChromecastCommunication_def receiver_GetStatus receiver_LaunchApp
      player_GetStatus player_Load player_Play player_Stop player_Pause player_SetVolume
      player_Seek)

theorem request_counters_independent_witness:
  "i_receiver_requestId new_ChromecastCommunication = 0
   \<and> i_requestId new_ChromecastCommunication = 0
   \<and> receiver_request example_comm (msgReceiverGetStatus example_h example_comm)
   \<and> receiver_request example_comm (msgReceiverLaunchApp example_h example_comm)
   \<and> player_request example_comm (msgPlayerGetStatus example_h ''app'' example_comm)
   \<and> player_request example_comm
        (msgPlayerLoad example_h ''app'' 8080 ''X'' [] ''video/mp4'' example_comm)
   \<and> player_request example_comm (msgPlayerPlay example_h ''app'' ''1'' example_comm)
   \<and> player_request example_comm (msgPlayerStop example_h ''app'' ''1'' example_comm)
   \<and> player_request example_comm (msgPlayerPause example_h ''app'' ''1'' example_comm)
   \<and> player_request example_comm
        (msgPlayerSetVolume example_h (\<lambda>f. ''1'') ''app'' ''1'' (Finite 1) True example_comm)
   \<and> player_request example_comm (msgPlayerSeek example_h ''app'' ''1'' ''12.5'' example_comm)"
  using request_counters_independent [of "''app''" "''1''" "Finite 1" example_comm example_h
      8080 "''X''" "[]" "''video/mp4''" "\<lambda>f. ''1''" True "''12.5''"]
  by (simp add: in_unit_interval_def)

text \<open>
  C5 as stated fails twice: a \<^verbatim>\<open>msgPlayerSetVolume\<close> call with level 1.5 leaves
  the media-player counter at 0 and sends nothing, and a \<^verbatim>\<open>msgPlayerPlay\<close> call
  with an empty media-session id stops at its assertion.
\<close>

theorem request_counters_counterexample:
  "msgPlayerSetVolume example_h (\<lambda>f. ''1.5'') ''app'' ''1'' (Finite 1.5) False
       new_ChromecastCommunication
     = Inr new_ChromecastCommunication
   \<and> msgPlayerPlay example_h ''app'' [] new_ChromecastCommunication = Inl AssertionFailed"
  by (simp add: msgPlayerSetVolume_def msgPlayerPlay_def)

subsection \<open>msgPlayerSetVolume\<close>

lemma setVolume_dropped:
  "mediaSessionId \<noteq> [] \<Longrightarrow> float_less f_volume 0 \<or> float_greater f_volume 1 \<Longrightarrow>
   msgPlayerSetVolume H show_float destinationId mediaSessionId f_volume b_mute c = Inr c"
  by (simp add: msgPlayerSetVolume_def)

lemma setVolume_sent:
  assumes "mediaSessionId \<noteq> []" "destinationId \<noteq> []" "in_unit_interval f_volume"
  shows \<open>msgPlayerSetVolume H show_float destinationId mediaSessionId f_volume b_mute c
    = Inr (buildMessage (NAMESPACE_MEDIA H)
            (''{"type":"SET_VOLUME","volume":{"level":'' @ show_float f_volume
               @ '',"muted":'' @ (if b_mute then ''true'' else ''false'')
               @ ''},"mediaSessionId":'' @ mediaSessionId
               @ '',"requestId":'' @ dec (i_requestId c) @ ''}'')
            destinationId STRING (c\<lparr>i_requestId := i_requestId c + 1\<rparr>))\<close>
  using assms in_unit_interval_guard [OF assms(3)]
  by (simp add: msgPlayerSetVolume_def pushMediaPlayerMessage_def Let_def)

lemma sent_payload_buildMessage:
  "outbox c' = outbox c \<Longrightarrow> sent_payload c (Inr (buildMessage ns p d STRING c')) = Some p"
  by (simp add: sent_payload_def sent_one_def buildMessage_def)

text \<open>
  C7, as amended. For a call of \<^verbatim>\<open>msgPlayerSetVolume\<close> with a non-empty
  media-session id: a level below 0.0 or above 1.0 sends nothing and reports no
  error, the object is returned as it was; a level from 0.0 to 1.0, both included,
  together with a non-empty destination id sends exactly one message, the
  \<open>SET_VOLUME\<close> message with that level (as the stream writes it) and the caller's
  mute flag.
\<close>

theorem setVolume_range:
  assumes "mediaSessionId \<noteq> []"
  shows \<open>((float_less f_volume 0 \<or> float_greater f_volume 1) \<longrightarrow>
            msgPlayerSetVolume H show_float destinationId mediaSessionId f_volume b_mute c = Inr c)
       \<and> (in_unit_interval f_volume \<and> destinationId \<noteq> [] \<longrightarrow>
            sent_payload c
              (msgPlayerSetVolume H show_float destinationId mediaSessionId f_volume b_mute c)
              = Some (''{"type":"SET_VOLUME","volume":{"level":'' @ show_float f_volume
                        @ '',"muted":'' @ (if b_mute then ''true'' else ''false'')
                        @ ''},"mediaSessionId":'' @ mediaSessionId
                        @ '',"requestId":'' @ dec (i_requestId c) @ ''}''))\<close>
proof (intro conjI impI)
  assume "float_less f_volume 0 \<or> float_greater f_volume 1"
  with assms
  show "msgPlayerSetVolume H show_float destinationId mediaSessionId f_volume b_mute c = Inr c"
    by (rule setVolume_dropped)
next
  assume a: "in_unit_interval f_volume \<and> destinationId \<noteq> []"
  have eq: \<open>msgPlayerSetVolume H show_float destinationId mediaSessionId f_volume b_mute c
    = Inr (buildMessage (NAMESPACE_MEDIA H)
            (''{"type":"SET_VOLUME","volume":{"level":'' @ show_float f_volume
               @ '',"muted":'' @ (if b_mute then ''true'' else ''false'')
               @ ''},"mediaSessionId":'' @ mediaSessionId
               @ '',"requestId":'' @ dec (i_requestId c) @ ''}'')
            destinationId STRING (c\<lparr>i_requestId := i_requestId c + 1\<rparr>))\<close>
    by (rule setVolume_sent) (use assms a in simp_all)
  show \<open>sent_payload c
              (msgPlayerSetVolume H show_float destinationId mediaSessionId f_volume b_mute c)
              = Some (''{"type":"SET_VOLUME","volume":{"level":'' @ show_float f_volume
                        @ '',"muted":'' @ (if b_mute then ''true'' else ''false'')
                        @ ''},"mediaSessionId":'' @ mediaSessionId
                        @ '',"requestId":'' @ dec (i_requestId c) @ ''}'')\<close>
    unfolding eq by (rule sent_payload_buildMessage) simp
qed

theorem setVolume_range_witness:
  \<open>msgPlayerSetVolume example_h (\<lambda>f. ''-0.1'') ''app'' ''1'' (Finite (- 0.1)) False example_comm
      = Inr example_comm
   \<and> sent_payload example_comm
        (msgPlayerSetVolume example_h (\<lambda>f. ''1'') ''app'' ''1'' (Finite 1) True example_comm)
      = Some (''{"type":"SET_VOLUME","volume":{"level":'' @ ''1''
                @ '',"muted":'' @ ''true''
                @ ''},"mediaSessionId":'' @ ''1''
                @ '',"requestId":'' @ dec (i_requestId example_comm) @ ''}'')\<close>
  using setVolume_range [of "''1''" "Finite (- 0.1)" example_h "\<lambda>f. ''-0.1''" "''app''" False
          example_comm]
        setVolume_range [of "''1''" "Finite 1" example_h "\<lambda>f. ''1''" "''app''" True example_comm]
  by (simp add: in_unit_interval_def)

text \<open>
  C7 as stated fails for an empty destination id: with media-session id \<open>1\<close> and
  level 0.5 the call stops at the assertion of \<^verbatim>\<open>pushMediaPlayerMessage\<close> and
  sends no message.
\<close>

theorem setVolume_range_counterexample:
  "msgPlayerSetVolume example_h (\<lambda>f. ''0.5'') [] ''1'' (Finite 0.5) False example_comm
     = Inl AssertionFailed"
  by (simp add: msgPlayerSetVolume_def pushMediaPlayerMessage_def Let_def)




subsection \<open>GetMedia and msgPlayerLoad\<close>

lemma dec_8080: "dec 8080 = ''8080''"
  by (simp add: dec.simps)

lemma GetMedia_with_images:
  \<open>title \<noteq> [] \<and> artwork \<noteq> [] \<and> take 4 artwork = ''http'' \<longrightarrow>
     GetMedia c i_port title artwork mime
       = ''"metadata":{ "metadataType":0,"title":"'' @ title @ ''"'' @ images_entry artwork @ ''},''
           @ media_tail c i_port mime\<close>
  by (simp add: GetMedia_def media_tail_def images_entry_def strncmp_eq_def Let_def)

lemma GetMedia_without_images:
  \<open>title \<noteq> [] \<and> \<not> (artwork \<noteq> [] \<and> take 4 artwork = ''http'') \<longrightarrow>
     GetMedia c i_port title artwork mime
       = ''"metadata":{ "metadataType":0,"title":"'' @ title @ ''"'' @ ''},''
           @ media_tail c i_port mime\<close>
  by (auto simp add: GetMedia_def media_tail_def strncmp_eq_def Let_def)

lemma GetMedia_no_title:
  \<open>title = [] \<longrightarrow> GetMedia c i_port title artwork mime = media_tail c i_port mime\<close>
  by (simp add: GetMedia_def media_tail_def Let_def)

lemma GetMedia_tail: "suffix (media_tail c i_port mime) (GetMedia c i_port title artwork mime)"
  using GetMedia_with_images [of title artwork c i_port mime]
        GetMedia_without_images [of title artwork c i_port mime]
        GetMedia_no_title [of title c i_port artwork mime]
  by (cases "title = []"; cases "artwork \<noteq> [] \<and> take 4 artwork = ''http''")
     (simp_all only: suffix_def, (metis append.assoc append_Nil)+)

lemma GetMedia_example:
  \<open>GetMedia example_comm 8080 ''X'' ''http://img/a.png'' ''video/mp4''
     = ''"metadata":{ "metadataType":0,"title":"X","images":["http://img/a.png"]},"contentId":"http://10.0.0.5:8080/stream","streamType":"LIVE","contentType":"video/mp4"''\<close>
  by (simp add: GetMedia_def example_comm_def new_ChromecastCommunication_def strncmp_eq_def
      dec_8080 Let_def)

lemma Load_sent:
  \<open>destinationId \<noteq> [] \<longrightarrow>
     sent_payload c (msgPlayerLoad H destinationId i_port title artwork mime c)
       = Some (''{"type":"LOAD","media":{'' @ GetMedia c i_port title artwork mime
                 @ ''},"autoplay":"false","requestId":'' @ dec (i_requestId c) @ ''}'')\<close>
  by (simp add: msgPlayerLoad_def pushMediaPlayerMessage_def Let_def sent_payload_buildMessage)

text \<open>
  C8, as amended. The media descriptor built by \<^verbatim>\<open>GetMedia\<close> ends with the
  content URL \<open>http://\<close> + local IP + \<open>:\<close> + port + \<open>/stream\<close>, the stream type
  \<open>LIVE\<close> and the mime type. It forwards the artwork, as an \<open>images\<close> entry of the
  metadata, if and only if the title is not empty and the artwork string is not
  empty and begins with the four characters \<open>http\<close>. The example inputs give the
  content URL \<open>http://10.0.0.5:8080/stream\<close> with the artwork included, and
  \<^verbatim>\<open>msgPlayerLoad\<close>, given a non-empty destination id, sends one \<open>LOAD\<close> message
  around that descriptor.
\<close>

theorem GetMedia_descriptor:
  \<open>suffix (media_tail c i_port mime) (GetMedia c i_port title artwork mime)
   \<and> (title \<noteq> [] \<and> artwork \<noteq> [] \<and> take 4 artwork = ''http'' \<longrightarrow>
        GetMedia c i_port title artwork mime
          = ''"metadata":{ "metadataType":0,"title":"'' @ title @ ''"'' @ images_entry artwork @ ''},''
              @ media_tail c i_port mime)
   \<and> (title \<noteq> [] \<and> \<not> (artwork \<noteq> [] \<and> take 4 artwork = ''http'') \<longrightarrow>
        GetMedia c i_port title artwork mime
          = ''"metadata":{ "metadataType":0,"title":"'' @ title @ ''"'' @ ''},''
              @ media_tail c i_port mime)
   \<and> (title = [] \<longrightarrow> GetMedia c i_port title artwork mime = media_tail c i_port mime)
   \<and> GetMedia example_comm 8080 ''X'' ''http://img/a.png'' ''video/mp4''
       = ''"metadata":{ "metadataType":0,"title":"X","images":["http://img/a.png"]},"contentId":"http://10.0.0.5:8080/stream","streamType":"LIVE","contentType":"video/mp4"''
   \<and> (destinationId \<noteq> [] \<longrightarrow>
        sent_payload c (msgPlayerLoad H destinationId i_port title artwork mime c)
          = Some (''{"type":"LOAD","media":{'' @ GetMedia c i_port title artwork mime
                    @ ''},"autoplay":"false","requestId":'' @ dec (i_requestId c) @ ''}''))\<close>
  by (rule conjI [OF GetMedia_tail conjI [OF GetMedia_with_images
        conjI [OF GetMedia_without_images conjI [OF GetMedia_no_title
          conjI [OF GetMedia_example Load_sent]]]]])

theorem GetMedia_descriptor_witness:
  \<open>suffix (media_tail example_comm 8080 ''video/mp4'')
      (GetMedia example_comm 8080 ''X'' ''http://img/a.png'' ''video/mp4'')
   \<and> GetMedia example_comm 8080 ''X'' ''http://img/a.png'' ''video/mp4''
       = ''"metadata":{ "metadataType":0,"title":"'' @ ''X'' @ ''"''
           @ images_entry ''http://img/a.png'' @ ''},'' @ media_tail example_comm 8080 ''video/mp4''
   \<and> sent_payload example_comm
        (msgPlayerLoad example_h ''app'' 8080 ''X'' ''http://img/a.png'' ''video/mp4'' example_comm)
       = Some (''{"type":"LOAD","media":{''
                 @ GetMedia example_comm 8080 ''X'' ''http://img/a.png'' ''video/mp4''
                 @ ''},"autoplay":"false","requestId":'' @ dec (i_requestId example_comm) @ ''}'')\<close>
proof -
  have art: "''X'' \<noteq> [] \<and> ''http://img/a.png'' \<noteq> [] \<and> take 4 ''http://img/a.png'' = ''http''"
    by simp
  have dst: "''app'' \<noteq> []"
    by simp
  from art dst
    GetMedia_descriptor [of example_comm 8080 "''video/mp4''" "''X''" "''http://img/a.png''"
      "''app''" example_h]
  show ?thesis
    by blast
qed

text \<open>
  C8 as stated fails in both directions: with an empty title the artwork
  \<open>http://img/a.png\<close> is not forwarded, and with title \<open>X\<close> the artwork
  \<open>httpd.log\<close>, which is no URL, is.
\<close>

theorem GetMedia_descriptor_counterexample:
  \<open>GetMedia example_comm 8080 [] ''http://img/a.png'' ''video/mp4''
     = ''"contentId":"http://10.0.0.5:8080/stream","streamType":"LIVE","contentType":"video/mp4"''
   \<and> GetMedia example_comm 8080 ''X'' ''httpd.log'' ''video/mp4''
     = ''"metadata":{ "metadataType":0,"title":"X","images":["httpd.log"]},"contentId":"http://10.0.0.5:8080/stream","streamType":"LIVE","contentType":"video/mp4"''\<close>
  by (simp add: GetMedia_def example_comm_def new_ChromecastCommunication_def strncmp_eq_def
      dec_8080 Let_def)

subsection \<open>The keepalive bookkeeping of recvPacket\<close>

lemma timeout_returns_zero:
  "recvPacket H PollTimeout st s = Inr (0, snd (keepalive H PollTimeout st), s)"
  by (simp add: recvPacket_def keepalive_def)

lemma keepalive_died_branch:
  "fst (keepalive H PollTimeout st) = Some 0 \<longleftrightarrow> pb_pingTimeout st \<and> pi_wait_retries st = 0"
  by (simp add: keepalive_def)

lemma keepalive_data_resets:
  "val \<noteq> PollTimeout \<Longrightarrow>
   keepalive H val st
     = (None, st\<lparr>pb_pingTimeout := False, pi_wait_delay := PING_WAIT_TIME H,
                 pi_wait_retries := PING_WAIT_RETRIES H\<rparr>)"
  by (simp add: keepalive_def)

text \<open>
  The path of line 160 is taken at the third timeout after the one that set the
  flag, and at none before it.
\<close>

lemma keepalive_budget:
  "keepalive H PollTimeout (st\<lparr>pb_pingTimeout := False\<rparr>)
     = (None, st\<lparr>pb_pingTimeout := True, pi_wait_delay := 500, pi_wait_retries := 2\<rparr>)
   \<and> keepalive H PollTimeout (st\<lparr>pb_pingTimeout := True, pi_wait_retries := 2\<rparr>)
     = (None, st\<lparr>pb_pingTimeout := True, pi_wait_retries := 1\<rparr>)
   \<and> keepalive H PollTimeout (st\<lparr>pb_pingTimeout := True, pi_wait_retries := 1\<rparr>)
     = (None, st\<lparr>pb_pingTimeout := True, pi_wait_retries := 0\<rparr>)
   \<and> keepalive H PollTimeout (st\<lparr>pb_pingTimeout := True, pi_wait_retries := 0\<rparr>)
     = (Some 0, st\<lparr>pb_pingTimeout := True, pi_wait_retries := 0\<rparr>)"
  by (simp add: keepalive_def PONG_WAIT_TIME_def PONG_WAIT_RETRIES_def)

text \<open>
  C6 (the code departs from the claim). The first timeout, with the flag clear,
  sets the flag, the delay 500 and the budget 2, and already returns 0, the value
  that line 160 returns for a dead connection. So does the timeout that takes the
  budget from 1 to 0: what it returns and leaves behind is exactly what the dead
  report that follows it returns and leaves behind.
\<close>

theorem first_timeout_returns_zero:
  "recvPacket H PollTimeout (st\<lparr>pb_pingTimeout := False\<rparr>) s
     = Inr (0, st\<lparr>pb_pingTimeout := True, pi_wait_delay := 500, pi_wait_retries := 2\<rparr>, s)
   \<and> recvPacket H PollTimeout (st\<lparr>pb_pingTimeout := True, pi_wait_retries := 1\<rparr>) s
     = Inr (0, st\<lparr>pb_pingTimeout := True, pi_wait_retries := 0\<rparr>, s)
   \<and> recvPacket H PollTimeout (st\<lparr>pb_pingTimeout := True, pi_wait_retries := 0\<rparr>) s
     = Inr (0, st\<lparr>pb_pingTimeout := True, pi_wait_retries := 0\<rparr>, s)"
  by (simp add: recvPacket_def keepalive_def PONG_WAIT_TIME_def PONG_WAIT_RETRIES_def)

subsection \<open>32-bit arithmetic, the buffer and the length prefix\<close>

lemma unat_of_nat32: "r < 4294967296 \<Longrightarrow> unat (of_nat r :: 32 word) = r"
  by (simp add: unat_of_nat)

lemma of_nat32_less: "a < 4294967296 \<Longrightarrow> b < 4294967296 \<Longrightarrow> ((of_nat a :: 32 word) < of_nat b) = (a < b)"
  by (simp add: word_less_nat_alt unat_of_nat32)

lemma of_nat32_less4: "a < 4294967296 \<Longrightarrow> ((of_nat a :: 32 word) < 4) = (a < 4)"
  using of_nat32_less [of a 4] by simp

lemma of_nat32_eq: "a < 4294967296 \<Longrightarrow> b < 4294967296 \<Longrightarrow> ((of_nat a :: 32 word) = of_nat b) = (a = b)"
  by (metis unat_of_nat32)

lemma store_nil: "off \<le> length buf \<Longrightarrow> store buf off [] = buf"
  by (simp add: store_def)

lemma length_store: "off + length bs \<le> length buf \<Longrightarrow> length (store buf off bs) = length buf"
  by (simp add: store_def)

lemma store_frame:
  assumes "r + k \<le> length F"
  shows "store (take r F @ drop r buf0) r (take k (drop r F)) = take (r + k) F @ drop (r + k) buf0"
proof -
  have l1: "length (take r F) = r" and l2: "length (take k (drop r F)) = k"
    using assms by simp_all
  have t: "take (r + k) F = take r F @ take k (drop r F)"
    by (simp add: take_add)
  have "take r (take r F @ drop r buf0) = take r F"
    using l1 by simp
  moreover have "drop (r + k) (take r F @ drop r buf0) = drop (r + k) buf0"
    using l1 by (simp add: add.commute)
  ultimately show ?thesis
    unfolding store_def l2 t by simp
qed

lemma be32_div:
  assumes "n < 4294967296"
  shows "((n div 16777216 mod 256 * 256 + n div 65536 mod 256) * 256 + n div 256 mod 256) * 256
           + n mod 256 = (n::nat)"
proof -
  define a where "a = n div 256"
  define b where "b = a div 256"
  define c where "c = b div 256"
  have b: "n div 65536 = b"
    by (simp add: a_def b_def div_mult2_eq)
  have c: "n div 16777216 = c"
    by (simp add: a_def b_def c_def div_mult2_eq)
  have "c < 256"
    using assms by (simp add: c [symmetric])
  then have cm: "c mod 256 = c" by simp
  have "n = a * 256 + n mod 256" by (simp add: a_def)
  moreover have "a = b * 256 + a mod 256" by (simp add: b_def)
  moreover have "b = c * 256 + b mod 256" by (simp add: c_def)
  ultimately show ?thesis
    unfolding b c cm a_def [symmetric] by simp
qed

lemma U32_AT_SetDWBE: "U32_AT (SetDWBE w @ rest) = w"
proof -
  define n where "n = unat w"
  have n: "n < 4294967296" using unsigned_less [of w] by (simp add: n_def)
  have b: "unat (of_nat x :: byte) = x mod 256" for x
    by (simp add: unat_of_nat)
  have nths: "(SetDWBE w @ rest) ! 0 = of_nat (n div 16777216)"
    "(SetDWBE w @ rest) ! 1 = of_nat (n div 65536)"
    "(SetDWBE w @ rest) ! 2 = of_nat (n div 256)"
    "(SetDWBE w @ rest) ! 3 = of_nat n"
    by (simp_all add: SetDWBE_def n_def)
  have "U32_AT (SetDWBE w @ rest)
          = of_nat (((n div 16777216 mod 256 * 256 + n div 65536 mod 256) * 256
                      + n div 256 mod 256) * 256 + n mod 256)"
    by (simp only: U32_AT_def nths b)
  also have "\<dots> = of_nat n"
    by (simp only: be32_div [OF n])
  also have "\<dots> = w"
    by (simp add: n_def)
  finally show ?thesis .
qed

lemma length_SetDWBE: "length (SetDWBE w) = 4"
  by (simp add: SetDWBE_def)

lemma U32_AT_take:
  assumes "4 \<le> r" "4 \<le> length F"
  shows "U32_AT (take r F @ rest) = U32_AT F"
proof -
  have "(take r F @ rest) ! i = F ! i" if "i < 4" for i
    using that assms by (simp add: nth_append)
  then show ?thesis
    unfolding U32_AT_def by simp
qed

subsection \<open>The header loop on a stream of chunks\<close>

lemma recv_header_done:
  "\<not> pi_received st < 4 \<Longrightarrow> recv_header st s = Inr (FellThrough, 0, st, s)"
  by (simp add: recv_header.simps)

lemma header_request_at:
  assumes "pi_received st = of_nat r" "r \<le> 4"
  shows "header_request st = 4 - r"
proof -
  have "(of_nat r :: 32 word) \<le> 4"
    using assms(2) by (simp add: word_le_nat_alt unat_of_nat32)
  then have "unat (4 - of_nat r :: 32 word) = 4 - r"
    using assms(2) by (simp add: unat_sub unat_of_nat32)
  then show ?thesis by (simp add: header_request_def assms(1))
qed

lemma recv_header_step:
  assumes "pi_received st = of_nat r" "r < 4" "4 \<le> length (p_data st)"
  shows "recv_header st s =
     (case tls_Recv s (4 - r) of (i_ret, got, s') \<Rightarrow>
        if i_ret \<le> 0 then Inr (Returned, i_ret, st\<lparr>p_data := store (p_data st) r got\<rparr>, s')
        else recv_header (st\<lparr>p_data := store (p_data st) r got,
                             pi_received := of_nat r + word_of_int i_ret\<rparr>) s')"
proof -
  have lt: "pi_received st < 4"
    using assms by (simp add: of_nat32_less4)
  have req: "header_request st = 4 - r"
    using assms by (simp add: header_request_at)
  have un: "unat (pi_received st) = r"
    using assms by (simp add: unat_of_nat32)
  have ri: "recv_into r (4 - r) (p_data st) s =
      (case tls_Recv s (4 - r) of (i_ret, got, s') \<Rightarrow> Inr (i_ret, store (p_data st) r got, s'))"
    using assms by (simp add: recv_into_def)
  show ?thesis
    apply (subst recv_header.simps)
    apply (simp only: lt if_True req un ri)
    apply (simp add: assms(1) split: prod.splits)
    done
qed

lemma recv_header_bad:
  assumes "pi_received st = of_nat r" "r < 4" "4 \<le> length (p_data st)"
  shows "recv_header st (Closed # s) = Inr (Returned, 0, st, s)"
    and "recv_header st (Failed e # s) = Inr (Returned, - 1 - int e, st, s)"
    and "recv_header st [] = Inr (Returned, 0, st, [])"
  using assms by (simp_all add: recv_header_step [OF assms] store_nil)

lemma recv_header_chunk:
  assumes "pi_received st = of_nat r" "r < 4" "c \<noteq> []"
    and "p_data st = take r F @ drop r buf0" "4 \<le> length F" "4 \<le> length buf0"
    and "take (length c) (drop r F) = c" "r + length c \<le> length F"
  shows "recv_header st (Data c # s) =
     (if length c \<le> 4 - r
      then recv_header (st\<lparr>p_data := take (r + length c) F @ drop (r + length c) buf0,
                           pi_received := of_nat (r + length c)\<rparr>) s
      else recv_header (st\<lparr>p_data := take 4 F @ drop 4 buf0, pi_received := 4\<rparr>)
             (Data (drop (4 - r) c) # s))"
proof -
  have len: "4 \<le> length (p_data st)"
    using assms by simp
  note step = recv_header_step [OF assms(1,2) len]
  have pos: "0 < length c" using assms(3) by simp
  show ?thesis
  proof (cases "length c \<le> 4 - r")
    case True
    have st: "store (p_data st) r c = take (r + length c) F @ drop (r + length c) buf0"
      using store_frame [of r "length c" F buf0] assms by simp
    show ?thesis
      using True pos by (simp add: step st)
  next
    case False
    have "take (4 - r) c = take (4 - r) (take (length c) (drop r F))"
      by (simp add: assms(7))
    also have "\<dots> = take (4 - r) (drop r F)"
      using False by (simp add: min_def)
    finally have k: "take (4 - r) c = take (4 - r) (drop r F)" .
    have st: "store (p_data st) r (take (4 - r) c) = take 4 F @ drop 4 buf0"
      using store_frame [of r "4 - r" F buf0] assms(2,4,5,6) k by simp
    have w: "(of_nat r :: 32 word) + of_nat (4 - r) = 4"
      using assms(2) by (simp flip: of_nat_add)
    show ?thesis
      using False assms(2) by (simp add: step st w)
  qed
qed

lemma concat_prefix_split:
  assumes "c @ rest = take j (drop r F)" "r + j \<le> length F"
  shows "take (length c) (drop r F) = c" and "length c \<le> j"
    and "rest = take (j - length c) (drop (r + length c) F)"
proof -
  have l: "length (c @ rest) = j"
    using assms by simp
  then show le: "length c \<le> j" by simp
  have "take (length c) (take j (drop r F)) = c"
    by (simp flip: assms(1))
  then show "take (length c) (drop r F) = c"
    using le by (simp add: min_def)
  have "rest = drop (length c) (take j (drop r F))"
    by (simp flip: assms(1))
  then show "rest = take (j - length c) (drop (r + length c) F)"
    by (simp add: drop_take add.commute)
qed

lemma recv_header_chunks:
  assumes "pi_received st = of_nat r" "r \<le> 4" "p_data st = take r F @ drop r buf0"
    and "4 \<le> length F" "4 \<le> length buf0"
    and "chunks cs" "concat cs = take j (drop r F)" "r + j \<le> length F"
  shows "if 4 \<le> r + j
         then \<exists>cs'. recv_header st (map Data cs @ tail)
                      = Inr (FellThrough, 0,
                             st\<lparr>p_data := take 4 F @ drop 4 buf0, pi_received := 4\<rparr>,
                             map Data cs' @ tail)
                \<and> chunks cs' \<and> concat cs' = take (r + j - 4) (drop 4 F)
                \<and> length cs' \<le> length cs
         else recv_header st (map Data cs @ tail)
                = recv_header (st\<lparr>p_data := take (r + j) F @ drop (r + j) buf0,
                                  pi_received := of_nat (r + j)\<rparr>) tail"
  using assms
proof (induction cs arbitrary: r st j)
  case Nil
  from Nil(7,8) have j: "j = 0"
    by (cases "j = 0") auto
  have same: "st\<lparr>p_data := take r F @ drop r buf0, pi_received := of_nat r\<rparr> = st"
    using Nil(1,3) by simp
  show ?case
  proof (cases "4 \<le> r")
    case True
    with Nil(2) have r: "r = 4" by simp
    have "\<not> pi_received st < 4"
      using Nil(1) r by simp
    then have "recv_header st tail = Inr (FellThrough, 0, st, tail)"
      by (rule recv_header_done)
    then show ?thesis
      using same r j by (auto simp: chunks_def intro!: exI [of _ "[]"])
  next
    case False
    then show ?thesis using same j by simp
  qed
next
  case (Cons c cs)
  from Cons.prems(6) have c: "c \<noteq> []" and cs: "chunks cs"
    by (auto simp: chunks_def)
  from Cons.prems(7) have cat: "c @ concat cs = take j (drop r F)"
    by simp
  note sp = concat_prefix_split [OF cat Cons.prems(8)]
  show ?case
  proof (cases "r = 4")
    case True
    have "\<not> pi_received st < 4"
      using Cons.prems(1) True by simp
    then have "recv_header st (map Data (c # cs) @ tail)
                 = Inr (FellThrough, 0, st, map Data (c # cs) @ tail)"
      by (rule recv_header_done)
    moreover have "st\<lparr>p_data := take 4 F @ drop 4 buf0, pi_received := 4\<rparr> = st"
      using Cons.prems(1,3) True by simp
    ultimately show ?thesis
      using True Cons.prems(6,7) by (auto intro!: exI [of _ "c # cs"])
  next
    case False
    with Cons.prems(2) have r: "r < 4" by simp
    have lenc: "r + length c \<le> length F"
      using sp(2) Cons.prems(8) by simp
    note ch = recv_header_chunk [OF Cons.prems(1) r c Cons.prems(3,4,5) sp(1) lenc,
        of "map Data cs @ tail"]
    show ?thesis
    proof (cases "length c \<le> 4 - r")
      case True
      define st1 where "st1 = st\<lparr>p_data := take (r + length c) F @ drop (r + length c) buf0,
                           pi_received := of_nat (r + length c)\<rparr>"
      have eq: "recv_header st (map Data (c # cs) @ tail) = recv_header st1 (map Data cs @ tail)"
        using ch True by (simp add: st1_def)
      have ih: "if 4 \<le> (r + length c) + (j - length c)
         then \<exists>cs'. recv_header st1 (map Data cs @ tail)
                      = Inr (FellThrough, 0,
                             st1\<lparr>p_data := take 4 F @ drop 4 buf0, pi_received := 4\<rparr>,
                             map Data cs' @ tail)
                \<and> chunks cs' \<and> concat cs' = take ((r + length c) + (j - length c) - 4) (drop 4 F)
                \<and> length cs' \<le> length cs
         else recv_header st1 (map Data cs @ tail)
                = recv_header (st1\<lparr>p_data := take ((r + length c) + (j - length c)) F
                                              @ drop ((r + length c) + (j - length c)) buf0,
                                  pi_received := of_nat ((r + length c) + (j - length c))\<rparr>) tail"
      proof (rule Cons.IH)
        show "pi_received st1 = of_nat (r + length c)" by (simp add: st1_def)
        show "r + length c \<le> 4" using True r by simp
        show "p_data st1 = take (r + length c) F @ drop (r + length c) buf0"
          by (simp add: st1_def)
        show "4 \<le> length F" by fact
        show "4 \<le> length buf0" by fact
        show "chunks cs" by fact
        show "concat cs = take (j - length c) (drop (r + length c) F)" by (rule sp(3))
        show "r + length c + (j - length c) \<le> length F"
          using sp(2) Cons.prems(8) by simp
      qed
      have sum: "(r + length c) + (j - length c) = r + j"
        using sp(2) by simp
      have upd: "st1\<lparr>p_data := x, pi_received := y\<rparr> = st\<lparr>p_data := x, pi_received := y\<rparr>" for x y
        by (simp add: st1_def)
      show ?thesis
        using ih unfolding sum upd eq
        by (auto split: if_splits)
    next
      case False
      have big: "4 \<le> r + j"
        using False sp(2) by simp
      define st1 where "st1 = st\<lparr>p_data := take 4 F @ drop 4 buf0, pi_received := 4\<rparr>"
      have eq: "recv_header st (map Data (c # cs) @ tail)
                  = recv_header st1 (Data (drop (4 - r) c) # map Data cs @ tail)"
        using ch False by (simp add: st1_def)
      have "\<not> pi_received st1 < 4"
        by (simp add: st1_def)
      then have fin: "recv_header st1 (Data (drop (4 - r) c) # map Data cs @ tail)
                  = Inr (FellThrough, 0, st1, Data (drop (4 - r) c) # map Data cs @ tail)"
        by (rule recv_header_done)
      have ne: "drop (4 - r) c \<noteq> []"
        using False by simp
      have "drop (4 - r) c @ concat cs = drop (4 - r) (take j (drop r F))"
        using False by (simp flip: cat)
      also have "\<dots> = take (r + j - 4) (drop 4 F)"
        using r by (simp add: drop_take add.commute)
      finally have cat': "concat (drop (4 - r) c # cs) = take (r + j - 4) (drop 4 F)"
        by simp
      have "recv_header st (map Data (c # cs) @ tail)
              = Inr (FellThrough, 0, st1, map Data (drop (4 - r) c # cs) @ tail)"
        using eq fin by simp
      moreover have "chunks (drop (4 - r) c # cs)"
        using ne cs by (auto simp: chunks_def)
      ultimately show ?thesis
        using big cat' by (auto simp: st1_def intro!: exI [of _ "drop (4 - r) c # cs"])
    qed
  qed
qed

subsection \<open>The payload of a frame that fits\<close>

lemma length_frame_of: "length (frame_of p) = 4 + length p"
  by (simp add: frame_of_def length_SetDWBE)

lemma max_payload_word:
  "4 \<le> M \<Longrightarrow> (of_nat M - 4 :: 32 word) = of_nat (M - 4)"
  by simp

lemma payload_header:
  assumes "fits H payload" "4 \<le> r" "length buf0 = PACKET_MAX_LEN H"
     and "p_data st = take r (frame_of payload) @ drop r buf0" "r \<le> 4 + length payload"
  shows "U32_AT (p_data st) = of_nat (length payload)"
    and "length (p_data st) = PACKET_MAX_LEN H"
    and "\<not> (of_nat (PACKET_MAX_LEN H) - 4 :: 32 word) < of_nat (length payload)"
proof -
  have "U32_AT (p_data st) = U32_AT (frame_of payload)"
    using assms(2,4) by (simp add: U32_AT_take length_frame_of)
  then show "U32_AT (p_data st) = of_nat (length payload)"
    by (simp add: frame_of_def U32_AT_SetDWBE)
  have rm: "r \<le> PACKET_MAX_LEN H"
    using assms(1,5) unfolding fits_def by linarith
  show "length (p_data st) = PACKET_MAX_LEN H"
    using assms(3,4,5) rm by (simp add: length_frame_of)
  have b: "PACKET_MAX_LEN H - 4 < 4294967296" "length payload < 4294967296"
    using assms(1) unfolding fits_def by linarith+
  have w: "(of_nat (PACKET_MAX_LEN H) - 4 :: 32 word) = of_nat (PACKET_MAX_LEN H - 4)"
    using assms(1) unfolding fits_def by (simp only: max_payload_word)
  have "\<not> PACKET_MAX_LEN H - 4 < length payload"
    using assms(1) by (simp add: fits_def)
  then show "\<not> (of_nat (PACKET_MAX_LEN H) - 4 :: 32 word) < of_nat (length payload)"
    unfolding w of_nat32_less [OF b] .
qed

lemma payload_request_at:
  assumes "n < 4294967296" "4 \<le> r" "r \<le> 4 + n"
  shows "unat ((of_nat n :: 32 word) - (of_nat r - 4)) = n + 4 - r"
proof -
  have a: "(of_nat r - 4 :: 32 word) = of_nat (r - 4)"
    using assms(2) by simp
  have b: "(of_nat n :: 32 word) - of_nat (r - 4) = of_nat (n - (r - 4))"
    using assms(3) by simp
  have c: "unat (of_nat (n - (r - 4)) :: 32 word) = n - (r - 4)"
    using assms(1) by (simp add: unat_of_nat32)
  have "unat ((of_nat n :: 32 word) - (of_nat r - 4)) = n - (r - 4)"
    by (simp only: a b c)
  also have "\<dots> = n + 4 - r"
    using assms by simp
  finally show ?thesis .
qed

lemma recv_payload_normal:
  assumes "fits H payload" "4 \<le> r" "r \<le> 4 + length payload"
    and "length buf0 = PACKET_MAX_LEN H"
    and "pi_received st = of_nat r"
    and "p_data st = take r (frame_of payload) @ drop r buf0"
  shows "recv_payload H st s =
     (case tls_Recv s (length payload + 4 - r) of (i_ret, got, s') \<Rightarrow>
        if i_ret \<le> 0
        then Inr (Returned, i_ret,
                  st\<lparr>i_payloadSize := of_nat (length payload),
                      p_data := store (p_data st) r got\<rparr>, s')
        else
          let st' = st\<lparr>i_payloadSize := of_nat (length payload),
                         p_data := store (p_data st) r got,
                         pi_received := of_nat r + word_of_int i_ret\<rparr>
          in if pi_received st' < of_nat (length payload) + 4
             then Inr (Returned, i_ret, st', s')
             else if pi_received st' \<noteq> of_nat (length payload) + 4
             then Inl AssertionFailed
             else Inr (FellThrough, i_ret, st'\<lparr>pi_received := 0, b_msgReceived := True\<rparr>, s'))"
proof -
  note hd = payload_header [OF assms(1,2,4,6,3)]
  have n: "length payload < 4294967296"
    using assms(1) unfolding fits_def by linarith
  have rb: "r < 4294967296" "r \<le> PACKET_MAX_LEN H"
    using assms(1,3) unfolding fits_def by linarith+
  have un: "unat (of_nat r :: 32 word) = r"
    using rb by (simp add: unat_of_nat32)
  have req: "payload_request (st\<lparr>i_payloadSize := of_nat (length payload)\<rparr>)
               = length payload + 4 - r"
    unfolding payload_request_def using payload_request_at [OF n assms(2,3)]
    by (simp add: assms(5))
  have fit: "\<not> PACKET_MAX_LEN H < r + (length payload + 4 - r)"
    using assms(1,2,3) unfolding fits_def by linarith
  have ri: "recv_into r (length payload + 4 - r) (p_data st) s =
      (case tls_Recv s (length payload + 4 - r) of
         (i_ret, got, s') \<Rightarrow> Inr (i_ret, store (p_data st) r got, s'))"
    using fit by (simp add: recv_into_def hd(2))
  have l4: "\<not> length (p_data st) < 4"
    using hd(2) assms(1) by (simp add: fits_def)
  show ?thesis
    unfolding recv_payload_def
    apply (simp only: l4 if_False Let_def hd(1))
    apply (simp add: hd(3) assms(5) un req ri split: prod.splits)
    done
qed

lemma recv_payload_bad:
  assumes "fits H payload" "4 \<le> r" "r \<le> 4 + length payload"
    and "length buf0 = PACKET_MAX_LEN H"
    and "pi_received st = of_nat r"
    and "p_data st = take r (frame_of payload) @ drop r buf0"
  shows "recv_payload H st (Closed # s)
           = Inr (Returned, 0, st\<lparr>i_payloadSize := of_nat (length payload)\<rparr>, s)"
    and "recv_payload H st (Failed e # s)
           = Inr (Returned, - 1 - int e, st\<lparr>i_payloadSize := of_nat (length payload)\<rparr>, s)"
    and "recv_payload H st []
           = Inr (Returned, 0, st\<lparr>i_payloadSize := of_nat (length payload)\<rparr>, [])"
proof -
  have "r \<le> length (p_data st)"
    using payload_header(2) [OF assms(1,2,4,6,3)] assms(1,3) unfolding fits_def by linarith
  then have st: "store (p_data st) r [] = p_data st"
    by (rule store_nil)
  show "recv_payload H st (Closed # s)
           = Inr (Returned, 0, st\<lparr>i_payloadSize := of_nat (length payload)\<rparr>, s)"
    and "recv_payload H st (Failed e # s)
           = Inr (Returned, - 1 - int e, st\<lparr>i_payloadSize := of_nat (length payload)\<rparr>, s)"
    and "recv_payload H st []
           = Inr (Returned, 0, st\<lparr>i_payloadSize := of_nat (length payload)\<rparr>, [])"
    by (simp_all add: recv_payload_normal [OF assms] st)
qed

lemma recv_payload_chunk:
  assumes "fits H payload" "4 \<le> r" "r \<le> 4 + length payload"
    and "length buf0 = PACKET_MAX_LEN H"
    and "pi_received st = of_nat r"
    and "p_data st = take r (frame_of payload) @ drop r buf0"
    and "c \<noteq> []" "take (length c) (drop r (frame_of payload)) = c"
    and "r + length c \<le> 4 + length payload"
  shows "recv_payload H st (Data c # s) =
     (if r + length c < 4 + length payload
      then Inr (Returned, int (length c),
                st\<lparr>i_payloadSize := of_nat (length payload),
                    p_data := take (r + length c) (frame_of payload) @ drop (r + length c) buf0,
                    pi_received := of_nat (r + length c)\<rparr>, s)
      else Inr (FellThrough, int (length c),
                st\<lparr>i_payloadSize := of_nat (length payload),
                    p_data := frame_of payload @ drop (4 + length payload) buf0,
                    pi_received := 0, b_msgReceived := True\<rparr>, s))"
proof -
  have le: "length c \<le> length payload + 4 - r"
    using assms(9) by simp
  have pos: "0 < length c"
    using assms(7) by simp
  have st: "store (p_data st) r c
              = take (r + length c) (frame_of payload) @ drop (r + length c) buf0"
    using store_frame [of r "length c" "frame_of payload" buf0] assms(6,8,9)
    by (simp add: length_frame_of)
  have b: "r + length c < 4294967296" "length payload + 4 < 4294967296"
    using assms(1,9) unfolding fits_def by linarith+
  have lt: "((of_nat r :: 32 word) + of_nat (length c) < of_nat (length payload) + 4)
              = (r + length c < length payload + 4)"
    using of_nat32_less [OF b] by simp
  have eq: "((of_nat r :: 32 word) + of_nat (length c) = of_nat (length payload) + 4)
              = (r + length c = length payload + 4)"
    using of_nat32_eq [OF b] by simp
  have whole: "take (length payload + 4) (frame_of payload) = frame_of payload"
    "drop (length payload + 4) buf0 = drop (4 + length payload) buf0"
    by (simp_all add: length_frame_of add.commute)
  show ?thesis
  proof (cases "r + length c < 4 + length payload")
    case True
    then show ?thesis
      unfolding recv_payload_normal [OF assms(1-6)]
      using le pos by (simp add: lt st Let_def)
  next
    case False
    then have e: "r + length c = length payload + 4"
      using assms(9) by simp
    show ?thesis
      unfolding recv_payload_normal [OF assms(1-6)]
      using le pos e False by (simp add: lt eq st Let_def whole)
  qed
qed

subsection \<open>Successive calls on one frame\<close>

lemma recvPacket_ready:
  "recvPacket H (PollReady True) st s =
     (case recv_data H (data_arrived H st) s of
        Inl e \<Rightarrow> Inl e
      | Inr (x, i_ret, st', s') \<Rightarrow> Inr (i_ret, st', s'))"
  by (simp add: recvPacket_def keepalive_def data_arrived_def
      split: sum.splits prod.splits exit.splits)

lemma recv_data_payload:
  "\<not> pi_received st < 4 \<Longrightarrow> recv_data H st s = recv_payload H st s"
  by (simp add: recv_data_def recv_header_done)

lemma not_less4: "4 \<le> r \<Longrightarrow> r < 4294967296 \<Longrightarrow> \<not> (of_nat r :: 32 word) < 4"
  by (simp add: of_nat32_less4)

lemma chunks_concat_nil: "chunks cs \<Longrightarrow> concat cs = [] \<Longrightarrow> cs = []"
  by (cases cs) (auto simp: chunks_def)

lemma deliver_payload_phase:
  assumes "fits H payload" "length buf0 = PACKET_MAX_LEN H"
    and "4 \<le> r" "r < 4 + length payload"
    and "pi_received st = of_nat r"
    and "p_data st = take r (frame_of payload) @ drop r buf0"
    and "\<not> b_msgReceived st"
    and "chunks cs" "concat cs = drop r (frame_of payload)" "length cs \<le> k"
  shows "deliver H k st (map Data cs @ tail)
           = Complete (completed H payload (st\<lparr>p_data := buf0\<rparr>)) tail"
  using assms(3-)
proof (induction cs arbitrary: r st k)
  case Nil
  then show ?case by (simp add: length_frame_of)
next
  case (Cons c cs)
  let ?F = "frame_of payload"
  let ?n = "length payload"
  from Cons.prems(6) have c: "c \<noteq> []" and cs: "chunks cs"
    by (auto simp: chunks_def)
  obtain k' where k: "k = Suc k'" and k': "length cs \<le> k'"
    using Cons.prems(8) by (cases k) auto
  have cat: "c @ concat cs = take (4 + ?n - r) (drop r ?F)"
    using Cons.prems(7) by (simp add: length_frame_of)
  have rj: "r + (4 + ?n - r) \<le> length ?F"
    using Cons.prems(2) by (simp add: length_frame_of)
  note sp = concat_prefix_split [OF cat rj]
  have lenc: "r + length c \<le> 4 + ?n"
    using sp(2) Cons.prems(2) by simp
  have rb: "r < 4294967296"
    using assms(1) Cons.prems(2) unfolding fits_def by linarith
  define st1 where "st1 = data_arrived H st"
  have st1: "pi_received st1 = of_nat r" "p_data st1 = take r ?F @ drop r buf0"
    using Cons.prems(3,4) by (simp_all add: st1_def data_arrived_def)
  have nl: "\<not> pi_received st1 < 4"
    using st1(1) not_less4 [OF Cons.prems(1) rb] by simp
  have rle: "r \<le> 4 + ?n" using Cons.prems(2) by simp
  note pc = recv_payload_chunk [OF assms(1) Cons.prems(1) rle assms(2) st1 c sp(1) lenc,
      of "map Data cs @ tail"]
  show ?case
  proof (cases "r + length c < 4 + ?n")
    case True
    define st2 where "st2 = st1\<lparr>i_payloadSize := of_nat ?n,
                    p_data := take (r + length c) ?F @ drop (r + length c) buf0,
                    pi_received := of_nat (r + length c)\<rparr>"
    have rp: "recvPacket H (PollReady True) st (map Data (c # cs) @ tail)
                = Inr (int (length c), st2, map Data cs @ tail)"
      using True pc nl
      by (simp add: recvPacket_ready recv_data_payload st1_def [symmetric] st2_def)
    have nm: "\<not> b_msgReceived st2"
      using Cons.prems(5) by (simp add: st2_def st1_def data_arrived_def)
    have step: "deliver H k st (map Data (c # cs) @ tail) = deliver H k' st2 (map Data cs @ tail)"
      using rp nm c by (simp add: k)
    have "deliver H k' st2 (map Data cs @ tail)
            = Complete (completed H payload (st2\<lparr>p_data := buf0\<rparr>)) tail"
    proof (rule Cons.IH)
      show "4 \<le> r + length c" using Cons.prems(1) by simp
      show "r + length c < 4 + ?n" by fact
      show "pi_received st2 = of_nat (r + length c)" by (simp add: st2_def)
      show "p_data st2 = take (r + length c) ?F @ drop (r + length c) buf0"
        by (simp add: st2_def)
      show "\<not> b_msgReceived st2" by fact
      show "chunks cs" by fact
      show "concat cs = drop (r + length c) ?F"
        using sp(3) lenc by (simp add: length_frame_of)
      show "length cs \<le> k'" by fact
    qed
    moreover have "completed H payload (st2\<lparr>p_data := buf0\<rparr>)
                     = completed H payload (st\<lparr>p_data := buf0\<rparr>)"
      by (simp add: completed_def st2_def st1_def data_arrived_def)
    ultimately show ?thesis
      using step by simp
  next
    case False
    then have e: "r + length c = 4 + ?n" using lenc by simp
    have "concat cs = []"
      using sp(3) e by (simp add: length_frame_of)
    then have nil: "cs = []"
      using cs by (rule chunks_concat_nil [rotated])
    have rp: "recvPacket H (PollReady True) st (map Data (c # cs) @ tail)
                = Inr (int (length c),
                       st1\<lparr>i_payloadSize := of_nat ?n,
                           p_data := ?F @ drop (4 + ?n) buf0,
                           pi_received := 0, b_msgReceived := True\<rparr>, tail)"
      using False pc nl nil
      by (simp add: recvPacket_ready recv_data_payload st1_def [symmetric])
    have "st1\<lparr>i_payloadSize := of_nat ?n, p_data := ?F @ drop (4 + ?n) buf0,
                pi_received := 0, b_msgReceived := True\<rparr>
            = completed H payload (st\<lparr>p_data := buf0\<rparr>)"
      by (simp add: completed_def st1_def data_arrived_def)
    moreover have "b_msgReceived (completed H payload (st\<lparr>p_data := buf0\<rparr>))"
      by (simp add: completed_def)
    ultimately show ?thesis
      using rp c by (simp add: k)
  qed
qed

lemma failure_code_nonpos: "failure_code b = Some v \<Longrightarrow> v \<le> 0"
  by (cases b) auto

lemma recv_payload_failure:
  assumes "failure_code b = Some v"
    and "fits H payload" "4 \<le> r" "r \<le> 4 + length payload"
    and "length buf0 = PACKET_MAX_LEN H"
    and "pi_received st = of_nat r"
    and "p_data st = take r (frame_of payload) @ drop r buf0"
  shows "recv_payload H st (b # s)
           = Inr (Returned, v, st\<lparr>i_payloadSize := of_nat (length payload)\<rparr>, s)"
  using assms(1) recv_payload_bad(1,2) [OF assms(2-)]
  by (cases b) auto

lemma recv_header_failure:
  assumes "failure_code b = Some v"
    and "pi_received st = of_nat r" "r < 4" "4 \<le> length (p_data st)"
  shows "recv_header st (b # s) = Inr (Returned, v, st, s)"
  using assms(1) recv_header_bad(1,2) [OF assms(2-)]
  by (cases b) auto

lemma deliver_payload_phase_fails:
  assumes "fits H payload" "length buf0 = PACKET_MAX_LEN H" "failure_code b = Some v"
    and "4 \<le> r"
    and "pi_received st = of_nat r"
    and "p_data st = take r (frame_of payload) @ drop r buf0"
    and "\<not> b_msgReceived st"
    and "chunks cs" "concat cs = take j (drop r (frame_of payload))"
    and "r + j < 4 + length payload" "length cs < k"
  shows "deliver H k st (map Data cs @ b # tail)
           = Stopped v (interrupted H payload (r + j) (st\<lparr>p_data := buf0\<rparr>)) tail"
  using assms(4-)
proof (induction cs arbitrary: r st k j)
  case Nil
  let ?F = "frame_of payload"
  let ?n = "length payload"
  from Nil.prems(6,7) have j: "j = 0"
    by (cases "j = 0") (auto simp: length_frame_of)
  obtain k' where k: "k = Suc k'"
    using Nil.prems(8) by (cases k) auto
  have rb: "r < 4294967296"
    using assms(1) Nil.prems(7) unfolding fits_def by linarith
  define st1 where "st1 = data_arrived H st"
  have st1: "pi_received st1 = of_nat r" "p_data st1 = take r ?F @ drop r buf0"
    using Nil.prems(2,3) by (simp_all add: st1_def data_arrived_def)
  have nl: "\<not> pi_received st1 < 4"
    using st1(1) not_less4 [OF Nil.prems(1) rb] by simp
  have rle: "r \<le> 4 + ?n" using Nil.prems(7) by simp
  note pb = recv_payload_failure [OF assms(3,1) Nil.prems(1) rle assms(2) st1, of tail]
  have v: "v \<le> 0"
    using assms(3) by (rule failure_code_nonpos)
  have rp: "recvPacket H (PollReady True) st (b # tail)
              = Inr (v, st1\<lparr>i_payloadSize := of_nat ?n\<rparr>, tail)"
    using nl by (simp add: recvPacket_ready recv_data_payload st1_def [symmetric] pb)
  have "st1\<lparr>i_payloadSize := of_nat ?n\<rparr> = interrupted H payload r (st\<lparr>p_data := buf0\<rparr>)"
    using Nil.prems(1,2,3) by (simp add: interrupted_def st1_def data_arrived_def)
  then show ?case
    using rp v by (simp add: k j)
next
  case (Cons c cs)
  let ?F = "frame_of payload"
  let ?n = "length payload"
  from Cons.prems(5) have c: "c \<noteq> []" and cs: "chunks cs"
    by (auto simp: chunks_def)
  obtain k' where k: "k = Suc k'" and k': "length cs < k'"
    using Cons.prems(8) by (cases k) auto
  have cat: "c @ concat cs = take j (drop r ?F)"
    using Cons.prems(6) by simp
  have rj: "r + j \<le> length ?F"
    using Cons.prems(7) by (simp add: length_frame_of)
  note sp = concat_prefix_split [OF cat rj]
  have lenc: "r + length c \<le> 4 + ?n" and less: "r + length c < 4 + ?n"
    using sp(2) Cons.prems(7) by simp_all
  have rb: "r < 4294967296"
    using assms(1) Cons.prems(7) unfolding fits_def by linarith
  define st1 where "st1 = data_arrived H st"
  have st1: "pi_received st1 = of_nat r" "p_data st1 = take r ?F @ drop r buf0"
    using Cons.prems(2,3) by (simp_all add: st1_def data_arrived_def)
  have nl: "\<not> pi_received st1 < 4"
    using st1(1) not_less4 [OF Cons.prems(1) rb] by simp
  have rle: "r \<le> 4 + ?n" using Cons.prems(7) by simp
  note pc = recv_payload_chunk [OF assms(1) Cons.prems(1) rle assms(2) st1 c sp(1) lenc,
      of "map Data cs @ b # tail"]
  define st2 where "st2 = st1\<lparr>i_payloadSize := of_nat ?n,
                  p_data := take (r + length c) ?F @ drop (r + length c) buf0,
                  pi_received := of_nat (r + length c)\<rparr>"
  have rp: "recvPacket H (PollReady True) st (map Data (c # cs) @ b # tail)
              = Inr (int (length c), st2, map Data cs @ b # tail)"
    using less pc nl
    by (simp add: recvPacket_ready recv_data_payload st1_def [symmetric] st2_def)
  have nm: "\<not> b_msgReceived st2"
    using Cons.prems(4) by (simp add: st2_def st1_def data_arrived_def)
  have step: "deliver H k st (map Data (c # cs) @ b # tail)
                = deliver H k' st2 (map Data cs @ b # tail)"
    using rp nm c by (simp add: k)
  have "deliver H k' st2 (map Data cs @ b # tail)
          = Stopped v (interrupted H payload ((r + length c) + (j - length c))
                         (st2\<lparr>p_data := buf0\<rparr>)) tail"
  proof (rule Cons.IH)
    show "4 \<le> r + length c" using Cons.prems(1) by simp
    show "pi_received st2 = of_nat (r + length c)" by (simp add: st2_def)
    show "p_data st2 = take (r + length c) ?F @ drop (r + length c) buf0"
      by (simp add: st2_def)
    show "\<not> b_msgReceived st2" by fact
    show "chunks cs" by fact
    show "concat cs = take (j - length c) (drop (r + length c) ?F)" by (rule sp(3))
    show "r + length c + (j - length c) < 4 + ?n"
      using sp(2) Cons.prems(7) by simp
    show "length cs < k'" by fact
  qed
  moreover have "(r + length c) + (j - length c) = r + j"
    using sp(2) by simp
  moreover have "interrupted H payload (r + j) (st2\<lparr>p_data := buf0\<rparr>)
                   = interrupted H payload (r + j) (st\<lparr>p_data := buf0\<rparr>)"
    using Cons.prems(1) by (simp add: interrupted_def st2_def st1_def data_arrived_def)
  ultimately show ?case
    using step by simp
qed

lemma first_call_header:
  assumes "fits H payload" "length (p_data st) = PACKET_MAX_LEN H" "pi_received st = 0"
    and "chunks cs" "concat cs = take j (frame_of payload)" "j \<le> 4 + length payload"
    and "4 \<le> j"
  shows "\<exists>cs'. recvPacket H (PollReady True) st (map Data cs @ tail)
                 = recvPacket H (PollReady True)
                     (st\<lparr>p_data := take 4 (frame_of payload) @ drop 4 (p_data st),
                         pi_received := 4\<rparr>) (map Data cs' @ tail)
               \<and> chunks cs' \<and> concat cs' = take (j - 4) (drop 4 (frame_of payload))
               \<and> length cs' \<le> length cs"
proof -
  let ?F = "frame_of payload"
  define st1 where "st1 = data_arrived H st"
  define st4 where "st4 = st\<lparr>p_data := take 4 ?F @ drop 4 (p_data st), pi_received := 4\<rparr>"
  have a: "pi_received st1 = of_nat 0" "p_data st1 = take 0 ?F @ drop 0 (p_data st)"
    using assms(3) by (simp_all add: st1_def data_arrived_def)
  have fl: "4 \<le> length ?F" "4 \<le> length (p_data st)"
    using assms(1,2) unfolding fits_def length_frame_of by linarith+
  have cat: "concat cs = take j (drop 0 ?F)" using assms(5) by simp
  have jl: "0 + j \<le> length ?F" using assms(6) by (simp add: length_frame_of)
  from recv_header_chunks [OF a(1) _ a(2) fl assms(4) cat jl, of tail] assms(7)
  obtain cs' where h: "recv_header st1 (map Data cs @ tail)
                      = Inr (FellThrough, 0,
                             st1\<lparr>p_data := take 4 ?F @ drop 4 (p_data st), pi_received := 4\<rparr>,
                             map Data cs' @ tail)"
    and cs': "chunks cs'" "concat cs' = take (j - 4) (drop 4 ?F)" "length cs' \<le> length cs"
    by auto
  have d4: "data_arrived H st4 = st1\<lparr>p_data := take 4 ?F @ drop 4 (p_data st), pi_received := 4\<rparr>"
    by (simp add: st4_def st1_def data_arrived_def)
  have "\<not> pi_received (data_arrived H st4) < 4"
    by (simp add: d4)
  then have r4: "recv_data H (data_arrived H st4) (map Data cs' @ tail)
               = recv_payload H (data_arrived H st4) (map Data cs' @ tail)"
    by (rule recv_data_payload)
  have r0: "recv_data H st1 (map Data cs @ tail)
              = recv_payload H (data_arrived H st4) (map Data cs' @ tail)"
    by (simp add: recv_data_def h d4)
  have "recvPacket H (PollReady True) st (map Data cs @ tail)
          = recvPacket H (PollReady True) st4 (map Data cs' @ tail)"
    by (simp only: recvPacket_ready st1_def [symmetric] r0 r4)
  then show ?thesis
    using cs' unfolding st4_def by blast
qed

lemma first_call_header_fails:
  assumes "fits H payload" "length (p_data st) = PACKET_MAX_LEN H" "pi_received st = 0"
    and "chunks cs" "concat cs = take j (frame_of payload)" "j < 4"
    and "failure_code b = Some v"
  shows "recvPacket H (PollReady True) st (map Data cs @ b # tail)
           = Inr (v, interrupted H payload j st, tail)"
proof -
  let ?F = "frame_of payload"
  define st1 where "st1 = data_arrived H st"
  have a: "pi_received st1 = of_nat 0" "p_data st1 = take 0 ?F @ drop 0 (p_data st)"
    using assms(3) by (simp_all add: st1_def data_arrived_def)
  have fl: "4 \<le> length ?F" "4 \<le> length (p_data st)"
    using assms(1,2) unfolding fits_def length_frame_of by linarith+
  have cat: "concat cs = take j (drop 0 ?F)" using assms(5) by simp
  have jl: "0 + j \<le> length ?F" using assms(6) by (simp add: length_frame_of)
  define stj where "stj = st1\<lparr>p_data := take j ?F @ drop j (p_data st), pi_received := of_nat j\<rparr>"
  from recv_header_chunks [OF a(1) _ a(2) fl assms(4) cat jl, of "b # tail"] assms(6)
  have h: "recv_header st1 (map Data cs @ b # tail) = recv_header stj (b # tail)"
    by (simp add: stj_def)
  have "4 \<le> length (p_data stj)"
    using fl assms(6) by (simp add: stj_def)
  from recv_header_failure [OF assms(7) _ assms(6) this, of tail]
  have "recv_header stj (b # tail) = Inr (Returned, v, stj, tail)"
    by (simp add: stj_def)
  then have "recv_data H st1 (map Data cs @ b # tail) = Inr (Returned, v, stj, tail)"
    by (simp add: recv_data_def h)
  moreover have "stj = interrupted H payload j st"
    using assms(6) by (simp add: stj_def st1_def data_arrived_def interrupted_def)
  ultimately show ?thesis
    by (simp add: recvPacket_ready st1_def [symmetric])
qed

lemma deliver_cong:
  "recvPacket H (PollReady True) st s = recvPacket H (PollReady True) st' s' \<Longrightarrow>
   deliver H (Suc k) st s = deliver H (Suc k) st' s'"
  by simp

lemma deliver_whole_frame:
  assumes "fits H payload" "payload \<noteq> []"
    and "length (p_data st) = PACKET_MAX_LEN H" "pi_received st = 0" "\<not> b_msgReceived st"
    and "chunks cs" "concat cs = frame_of payload" "length cs \<le> k"
  shows "deliver H k st (map Data cs @ tail) = Complete (completed H payload st) tail"
proof -
  let ?F = "frame_of payload"
  let ?n = "length payload"
  have "cs \<noteq> []"
    using assms(7) by (auto simp: frame_of_def SetDWBE_def)
  with assms(8) obtain k' where k: "k = Suc k'"
    by (cases k) auto
  have cat: "concat cs = take (4 + ?n) ?F"
    using assms(7) by (simp add: length_frame_of)
  from first_call_header [OF assms(1,3,4,6) cat, of tail]
  obtain cs' where h: "recvPacket H (PollReady True) st (map Data cs @ tail)
                 = recvPacket H (PollReady True)
                     (st\<lparr>p_data := take 4 ?F @ drop 4 (p_data st), pi_received := 4\<rparr>)
                     (map Data cs' @ tail)"
    and cs': "chunks cs'" "concat cs' = take (4 + ?n - 4) (drop 4 ?F)" "length cs' \<le> length cs"
    by auto
  define st4 where "st4 = st\<lparr>p_data := take 4 ?F @ drop 4 (p_data st), pi_received := 4\<rparr>"
  have "deliver H k st (map Data cs @ tail) = deliver H k st4 (map Data cs' @ tail)"
    unfolding k st4_def using h by (rule deliver_cong)
  also have "\<dots> = Complete (completed H payload (st4\<lparr>p_data := p_data st\<rparr>)) tail"
  proof (rule deliver_payload_phase [OF assms(1,3)])
    show "(4::nat) \<le> 4" by simp
    show "4 < 4 + ?n" using assms(2) by simp
    show "pi_received st4 = of_nat 4" by (simp add: st4_def)
    show "p_data st4 = take 4 ?F @ drop 4 (p_data st)" by (simp add: st4_def)
    show "\<not> b_msgReceived st4" using assms(5) by (simp add: st4_def)
    show "chunks cs'" by fact
    show "concat cs' = drop 4 ?F" using cs'(2) by (simp add: length_frame_of)
    show "length cs' \<le> k" using cs'(3) assms(8) by simp
  qed
  also have "completed H payload (st4\<lparr>p_data := p_data st\<rparr>) = completed H payload st"
    by (simp add: completed_def st4_def)
  finally show ?thesis .
qed

lemma deliver_broken_frame:
  assumes "fits H payload"
    and "length (p_data st) = PACKET_MAX_LEN H" "pi_received st = 0" "\<not> b_msgReceived st"
    and "chunks cs" "concat cs = take j (frame_of payload)" "j < 4 + length payload"
    and "failure_code b = Some v" "length cs < k"
  shows "deliver H k st (map Data cs @ b # tail) = Stopped v (interrupted H payload j st) tail"
proof -
  let ?F = "frame_of payload"
  let ?n = "length payload"
  from assms(9) obtain k' where k: "k = Suc k'"
    by (cases k) auto
  have v: "v \<le> 0" using assms(8) by (rule failure_code_nonpos)
  show ?thesis
  proof (cases "j < 4")
    case True
    from first_call_header_fails [OF assms(1,2,3,5,6) True assms(8), of tail]
    show ?thesis using v by (simp add: k)
  next
    case False
    then have j4: "4 \<le> j" by simp
    have jl: "j \<le> 4 + ?n" using assms(7) by simp
    from first_call_header [OF assms(1,2,3,5,6) jl j4, of "b # tail"]
    obtain cs' where h: "recvPacket H (PollReady True) st (map Data cs @ b # tail)
                 = recvPacket H (PollReady True)
                     (st\<lparr>p_data := take 4 ?F @ drop 4 (p_data st), pi_received := 4\<rparr>)
                     (map Data cs' @ b # tail)"
      and cs': "chunks cs'" "concat cs' = take (j - 4) (drop 4 ?F)" "length cs' \<le> length cs"
      by auto
    define st4 where "st4 = st\<lparr>p_data := take 4 ?F @ drop 4 (p_data st), pi_received := 4\<rparr>"
    have "deliver H k st (map Data cs @ b # tail) = deliver H k st4 (map Data cs' @ b # tail)"
      unfolding k st4_def using h by (rule deliver_cong)
    also have "\<dots> = Stopped v (interrupted H payload (4 + (j - 4)) (st4\<lparr>p_data := p_data st\<rparr>)) tail"
    proof (rule deliver_payload_phase_fails [OF assms(1,2,8)])
      show "(4::nat) \<le> 4" by simp
      show "pi_received st4 = of_nat 4" by (simp add: st4_def)
      show "p_data st4 = take 4 ?F @ drop 4 (p_data st)" by (simp add: st4_def)
      show "\<not> b_msgReceived st4" using assms(4) by (simp add: st4_def)
      show "chunks cs'" by fact
      show "concat cs' = take (j - 4) (drop 4 ?F)" by fact
      show "4 + (j - 4) < 4 + ?n" using assms(7) j4 by simp
      show "length cs' < k" using cs'(3) assms(9) by simp
    qed
    also have "interrupted H payload (4 + (j - 4)) (st4\<lparr>p_data := p_data st\<rparr>)
                 = interrupted H payload j st"
      using j4 by (simp add: interrupted_def st4_def)
    finally show ?thesis .
  qed
qed

text \<open>
  Frames with a payload of at least one byte are reassembled whatever the chunks.
  Take a frame whose payload is not empty and fits, and the caller's variables
  before the first call (count 0, a buffer of \<open>PACKET_MAX_LEN\<close> bytes, no message
  reported). However the bytes of the frame are cut into non-empty chunks, calling
  \<^verbatim>\<open>recvPacket\<close> as often as there are chunks ends with \<open>b_msgReceived\<close> set,
  the frame in the buffer, \<open>i_payloadSize\<close> its payload length and the count back
  at 0: the same variables as after delivering the frame in one piece. And if,
  after \<open>j\<close> bytes of the frame, a read answers 0 or a negative number, the call
  that met it returns that answer and leaves the count at \<open>j\<close> with those \<open>j\<close>
  bytes in the buffer.
\<close>

lemma chunked_reassembly:
  assumes "fits H payload" and "payload \<noteq> []"
    and "length (p_data st) = PACKET_MAX_LEN H" and "pi_received st = 0"
    and "\<not> b_msgReceived st" and "chunks cs"
  shows "(concat cs = frame_of payload \<and> length cs \<le> k \<longrightarrow>
            deliver H k st (map Data cs @ tail) = Complete (completed H payload st) tail
          \<and> deliver H k st (map Data cs @ tail)
              = deliver H (Suc 0) st (Data (frame_of payload) # tail))
       \<and> (concat cs = take j (frame_of payload) \<and> j < 4 + length payload
            \<and> failure_code b = Some v \<and> length cs < k \<longrightarrow>
            deliver H k st (map Data cs @ b # tail)
              = Stopped v (interrupted H payload j st) tail)"
proof (intro conjI impI)
  assume a: "concat cs = frame_of payload \<and> length cs \<le> k"
  show c: "deliver H k st (map Data cs @ tail) = Complete (completed H payload st) tail"
    using deliver_whole_frame [OF assms(1-5) assms(6)] a by blast
  have one: "chunks [frame_of payload]"
    by (simp add: chunks_def frame_of_def SetDWBE_def)
  have "deliver H (Suc 0) st (map Data [frame_of payload] @ tail)
          = Complete (completed H payload st) tail"
    by (rule deliver_whole_frame [OF assms(1-5) one]) simp_all
  then show "deliver H k st (map Data cs @ tail)
               = deliver H (Suc 0) st (Data (frame_of payload) # tail)"
    using c by simp
next
  assume "concat cs = take j (frame_of payload) \<and> j < 4 + length payload
            \<and> failure_code b = Some v \<and> length cs < k"
  then show "deliver H k st (map Data cs @ b # tail)
               = Stopped v (interrupted H payload j st) tail"
    using deliver_broken_frame [OF assms(1,3,4,5,6)] by blast
qed

text \<open>
  The count that a failed read leaves behind is the place from which the next calls
  go on, in the header as well as in the payload: from the variables left after
  \<open>j\<close> bytes of the frame, the remaining bytes, in whatever chunks, complete the
  same message.
\<close>

lemma resumed_call_header:
  assumes "4 \<le> length F" "4 \<le> length buf0"
    and "pi_received st = of_nat r" "r \<le> 4" "p_data st = take r F @ drop r buf0"
    and "chunks cs" "concat cs = take j (drop r F)" "r + j \<le> length F" "4 \<le> r + j"
  shows "\<exists>cs'. recvPacket H (PollReady True) st (map Data cs @ tail)
                 = recvPacket H (PollReady True)
                     (st\<lparr>p_data := take 4 F @ drop 4 buf0, pi_received := 4\<rparr>)
                     (map Data cs' @ tail)
               \<and> chunks cs' \<and> concat cs' = take (r + j - 4) (drop 4 F)
               \<and> length cs' \<le> length cs"
proof -
  define st1 where "st1 = data_arrived H st"
  define st4 where "st4 = st\<lparr>p_data := take 4 F @ drop 4 buf0, pi_received := 4\<rparr>"
  have a: "pi_received st1 = of_nat r" "p_data st1 = take r F @ drop r buf0"
    using assms(3,5) by (simp_all add: st1_def data_arrived_def)
  from recv_header_chunks [OF a(1) assms(4) a(2) assms(1,2,6,7,8), of tail] assms(9)
  obtain cs' where h: "recv_header st1 (map Data cs @ tail)
                      = Inr (FellThrough, 0,
                             st1\<lparr>p_data := take 4 F @ drop 4 buf0, pi_received := 4\<rparr>,
                             map Data cs' @ tail)"
    and cs': "chunks cs'" "concat cs' = take (r + j - 4) (drop 4 F)" "length cs' \<le> length cs"
    by auto
  have d4: "data_arrived H st4 = st1\<lparr>p_data := take 4 F @ drop 4 buf0, pi_received := 4\<rparr>"
    by (simp add: st4_def st1_def data_arrived_def)
  have "\<not> pi_received (data_arrived H st4) < 4"
    by (simp add: d4)
  then have r4: "recv_data H (data_arrived H st4) (map Data cs' @ tail)
               = recv_payload H (data_arrived H st4) (map Data cs' @ tail)"
    by (rule recv_data_payload)
  have r0: "recv_data H st1 (map Data cs @ tail)
              = recv_payload H (data_arrived H st4) (map Data cs' @ tail)"
    by (simp add: recv_data_def h d4)
  have "recvPacket H (PollReady True) st (map Data cs @ tail)
          = recvPacket H (PollReady True) st4 (map Data cs' @ tail)"
    by (simp only: recvPacket_ready st1_def [symmetric] r0 r4)
  then show ?thesis
    using cs' unfolding st4_def by blast
qed

lemma interrupted_frame_resumes:
  assumes "fits H payload" "payload \<noteq> []"
    and "length (p_data st) = PACKET_MAX_LEN H" "\<not> b_msgReceived st"
    and "j < 4 + length payload"
    and "chunks cs" "concat cs = drop j (frame_of payload)" "length cs \<le> k"
  shows "deliver H k (interrupted H payload j st) (map Data cs @ tail)
           = Complete (completed H payload st) tail"
proof -
  let ?F = "frame_of payload"
  let ?n = "length payload"
  let ?X = "interrupted H payload j st"
  have x: "pi_received ?X = of_nat j" "p_data ?X = take j ?F @ drop j (p_data st)"
    "\<not> b_msgReceived ?X"
    using assms(4) by (simp_all add: interrupted_def)
  have fin: "completed H payload (Y\<lparr>p_data := p_data st\<rparr>) = completed H payload st" for Y
    by (simp add: completed_def)
  show ?thesis
  proof (cases "4 \<le> j")
    case True
    have "deliver H k ?X (map Data cs @ tail)
            = Complete (completed H payload (?X\<lparr>p_data := p_data st\<rparr>)) tail"
      by (rule deliver_payload_phase [OF assms(1,3) True assms(5) x assms(6,7,8)])
    then show ?thesis
      by (simp add: fin)
  next
    case False
    then have j4: "j \<le> 4" by simp
    have fl: "4 \<le> length ?F" "4 \<le> length (p_data st)"
      using assms(1,3) unfolding fits_def length_frame_of by linarith+
    have "concat cs \<noteq> []"
      using assms(5,7) by (simp add: length_frame_of)
    then have "cs \<noteq> []" by auto
    with assms(8) obtain k' where k: "k = Suc k'"
      by (cases k) auto
    have cat: "concat cs = take (4 + ?n - j) (drop j ?F)"
      using assms(7) by (simp add: length_frame_of)
    have le: "j + (4 + ?n - j) \<le> length ?F" "4 \<le> j + (4 + ?n - j)"
      using assms(5) by (simp_all add: length_frame_of)
    from resumed_call_header [OF fl x(1) j4 x(2) assms(6) cat le, of H tail]
    obtain cs' where h: "recvPacket H (PollReady True) ?X (map Data cs @ tail)
                 = recvPacket H (PollReady True)
                     (?X\<lparr>p_data := take 4 ?F @ drop 4 (p_data st), pi_received := 4\<rparr>)
                     (map Data cs' @ tail)"
      and cs': "chunks cs'" "concat cs' = take (j + (4 + ?n - j) - 4) (drop 4 ?F)"
        "length cs' \<le> length cs"
      by auto
    define X4 where "X4 = ?X\<lparr>p_data := take 4 ?F @ drop 4 (p_data st), pi_received := 4\<rparr>"
    have "deliver H k ?X (map Data cs @ tail) = deliver H k X4 (map Data cs' @ tail)"
      unfolding k X4_def using h by (rule deliver_cong)
    also have "\<dots> = Complete (completed H payload (X4\<lparr>p_data := p_data st\<rparr>)) tail"
    proof (rule deliver_payload_phase [OF assms(1,3)])
      show "(4::nat) \<le> 4" by simp
      show "4 < 4 + ?n" using assms(2) by simp
      show "pi_received X4 = of_nat 4" by (simp add: X4_def)
      show "p_data X4 = take 4 ?F @ drop 4 (p_data st)" by (simp add: X4_def)
      show "\<not> b_msgReceived X4" using x(3) by (simp add: X4_def)
      show "chunks cs'" by fact
      show "concat cs' = drop 4 ?F" using cs'(2) assms(5) by (simp add: length_frame_of)
      show "length cs' \<le> k" using cs'(3) assms(8) by simp
    qed
    finally show ?thesis
      by (simp add: fin)
  qed
qed

subsection \<open>Buffer bounds and the assertion\<close>

lemma unat_header_rest: "(r :: 32 word) < 4 \<Longrightarrow> unat r + unat (4 - r) = 4"
  by unat_arith

lemma unat_payload_rest: "4 \<le> (r :: 32 word) \<Longrightarrow> unat r \<le> 4 + unat (p :: 32 word) \<Longrightarrow>
   unat (p - (r - 4)) = unat p + 4 - unat r"
proof -
  assume a: "4 \<le> r" "unat r \<le> 4 + unat p"
  have b: "unat (r - 4) = unat r - 4"
    using a(1) by (simp add: unat_sub)
  have "r - 4 \<le> p"
    using a b by (simp add: word_le_nat_alt)
  then have "unat (p - (r - 4)) = unat p - unat (r - 4)"
    by (rule unat_sub)
  then show ?thesis
    using a b by (simp add: word_le_nat_alt)
qed

lemma unat_add_of_nat_le: "unat ((a :: 32 word) + of_nat k) \<le> unat a + k"
proof -
  have "unat (a + of_nat k) = (unat a + unat (of_nat k :: 32 word)) mod 2 ^ 32"
    by (simp add: unat_word_ariths)
  also have "\<dots> \<le> unat a + unat (of_nat k :: 32 word)"
    by (rule mod_less_eq_dividend)
  also have "unat (of_nat k :: 32 word) \<le> k"
    by (simp add: unat_of_nat)
  finally show ?thesis by simp
qed

lemma unat_add_of_nat: "unat (a :: 32 word) + k < 4294967296 \<Longrightarrow> unat (a + of_nat k) = unat a + k"
proof -
  assume a: "unat a + k < 4294967296"
  then have k: "unat (of_nat k :: 32 word) = k"
    by (simp add: unat_of_nat)
  have "unat a + unat (of_nat k :: 32 word) < 2 ^ LENGTH(32)"
    using a k by simp
  then show ?thesis
    using k by (simp add: unat_add_lem [THEN iffD1])
qed

lemma unat_add_four: "unat (p :: 32 word) + 4 < 4294967296 \<Longrightarrow> unat (p + 4) = unat p + 4"
  using unat_add_of_nat [of p 4] by simp

lemma unat_max_payload: "4 \<le> M \<Longrightarrow> M < 4294967296 \<Longrightarrow> unat (of_nat M - 4 :: 32 word) = M - 4"
proof -
  assume a: "4 \<le> M" "M < 4294967296"
  have "(of_nat M - 4 :: 32 word) = of_nat (M - 4)"
    using a by simp
  then show ?thesis using a by (simp add: unat_of_nat del: of_nat_diff)
qed

lemma tls_Recv_result:
  assumes "tls_Recv s len = (i, got, s')"
  shows "length got \<le> len" and "0 < i \<Longrightarrow> i = int (length got)" and "i \<le> 0 \<Longrightarrow> got = []"
  using assms by (cases "(s, len)" rule: tls_Recv.cases; auto split: if_splits)+

lemma U32_AT_store: "4 \<le> off \<Longrightarrow> off \<le> length buf \<Longrightarrow> U32_AT (store buf off bs) = U32_AT buf"
proof -
  assume a: "4 \<le> off" "off \<le> length buf"
  have "(take off buf @ rest) ! i = buf ! i" if "i < 4" for i rest
    using that a by (simp add: nth_append)
  then show ?thesis
    unfolding U32_AT_def store_def by simp
qed

lemma recv_header_unfold:
  assumes "pi_received st < 4" "4 \<le> length (p_data st)"
  shows "recv_header st s =
     (case tls_Recv s (header_request st) of (i_ret, got, s') \<Rightarrow>
        if i_ret \<le> 0
        then Inr (Returned, i_ret, st\<lparr>p_data := store (p_data st) (unat (pi_received st)) got\<rparr>, s')
        else recv_header (st\<lparr>p_data := store (p_data st) (unat (pi_received st)) got,
                             pi_received := pi_received st + word_of_int i_ret\<rparr>) s')"
proof -
  have "unat (pi_received st) + header_request st = 4"
    unfolding header_request_def using assms(1) by (rule unat_header_rest)
  then have ri: "recv_into (unat (pi_received st)) (header_request st) (p_data st) s =
      (case tls_Recv s (header_request st) of
         (i_ret, got, s') \<Rightarrow> Inr (i_ret, store (p_data st) (unat (pi_received st)) got, s'))"
    using assms(2) by (simp add: recv_into_def)
  show ?thesis
    apply (subst recv_header.simps)
    apply (simp only: assms(1) if_True ri)
    apply (simp split: prod.splits)
    done
qed

lemma recv_header_safe:
  assumes "4 \<le> length (p_data st)"
  shows "\<exists>e i st' s'. recv_header st s = Inr (e, i, st', s')
           \<and> length (p_data st') = length (p_data st)
           \<and> (if e = Returned then pi_received st' < 4
               else if pi_received st < 4 then pi_received st' = 4 else st' = st)"
  using assms
proof (induction "4 - unat (pi_received st)" arbitrary: st s rule: less_induct)
  case less
  show ?case
  proof (cases "pi_received st < 4")
    case False
    then show ?thesis by (simp add: recv_header_done)
  next
    case True
    obtain i got s' where t: "tls_Recv s (header_request st) = (i, got, s')"
      by (cases "tls_Recv s (header_request st)") auto
    note tr = tls_Recv_result [OF t]
    have hr: "unat (pi_received st) + header_request st = 4"
      unfolding header_request_def using True by (rule unat_header_rest)
    have ls: "length (store (p_data st) (unat (pi_received st)) got) = length (p_data st)"
      using tr(1) hr less.prems by (simp add: length_store)
    note un = recv_header_unfold [OF True less.prems, of s]
    show ?thesis
    proof (cases "i \<le> 0")
      case True
      then show ?thesis
        using un t ls \<open>pi_received st < 4\<close> by simp
    next
      case False
      then have i: "i = int (length got)" and pos: "0 < length got"
        using tr(2) by auto
      define st2 where "st2 = st\<lparr>p_data := store (p_data st) (unat (pi_received st)) got,
                             pi_received := pi_received st + word_of_int i\<rparr>"
      have u2: "unat (pi_received st2) = unat (pi_received st) + length got"
        using unat_add_of_nat [of "pi_received st" "length got"] tr(1) hr by (simp add: st2_def i)
      have eq: "recv_header st s = recv_header st2 s'"
        using un t False by (simp add: st2_def)
      have l2: "length (p_data st2) = length (p_data st)"
        using ls by (simp add: st2_def)
      have "4 - unat (pi_received st2) < 4 - unat (pi_received st)"
        using u2 pos tr(1) hr by arith
      from less.hyps [OF this, of s'] l2 less.prems
      obtain e j st' s'' where r: "recv_header st2 s' = Inr (e, j, st', s'')"
        "length (p_data st') = length (p_data st2)"
        "if e = Returned then pi_received st' < 4
         else if pi_received st2 < 4 then pi_received st' = 4 else st' = st2"
        by auto
      have four: "\<not> pi_received st2 < 4 \<Longrightarrow> pi_received st2 = 4"
      proof -
        assume "\<not> pi_received st2 < 4"
        then have "unat (pi_received st2) = 4"
          using u2 tr(1) hr by (simp add: word_less_nat_alt)
        then show "pi_received st2 = 4"
          by (simp add: word_unat_eq_iff)
      qed
      have "if e = Returned then pi_received st' < 4 else pi_received st' = 4"
        using r(3) four by (auto split: if_splits)
      then show ?thesis
        using eq r(1,2) l2 True by auto
    qed
  qed
qed

lemma drain_request_bound:
  assumes "4 \<le> PACKET_MAX_LEN H" "PACKET_MAX_LEN H < 4294967296"
  shows "4 + drain_request H st \<le> PACKET_MAX_LEN H"
    and "drain_request H st \<le> unat (i_payloadSize st - (pi_received st - 4))"
proof -
  let ?mx = "of_nat (PACKET_MAX_LEN H) - 4 :: 32 word"
  let ?x = "i_payloadSize st - (pi_received st - 4)"
  have mx: "unat ?mx = PACKET_MAX_LEN H - 4"
    using assms by (rule unat_max_payload)
  have "unat (if ?mx < ?x then ?mx else ?x) \<le> unat ?mx"
    by (simp add: word_less_nat_alt)
  then show "4 + drain_request H st \<le> PACKET_MAX_LEN H"
    unfolding drain_request_def Let_def using mx assms(1) by simp
  have "unat (if ?mx < ?x then ?mx else ?x) \<le> unat ?x"
    by (simp add: word_less_nat_alt)
  then show "drain_request H st \<le> unat ?x"
    unfolding drain_request_def Let_def by simp
qed

lemma recv_payload_drain_unfold:
  assumes "4 \<le> PACKET_MAX_LEN H" "PACKET_MAX_LEN H < 4294967296"
    and "length (p_data st) = PACKET_MAX_LEN H"
    and "of_nat (PACKET_MAX_LEN H) - 4 < U32_AT (p_data st)"
  shows "recv_payload H st s =
     (let stp = st\<lparr>i_payloadSize := U32_AT (p_data st)\<rparr> in
      case tls_Recv s (drain_request H stp) of (i_ret, got, s') \<Rightarrow>
        if i_ret \<le> 0 then Inr (Returned, i_ret, stp\<lparr>p_data := store (p_data st) 4 got\<rparr>, s')
        else if pi_received st + word_of_int i_ret < U32_AT (p_data st) + 4
        then Inr (Returned, i_ret,
                  stp\<lparr>p_data := store (p_data st) 4 got,
                       pi_received := pi_received st + word_of_int i_ret\<rparr>, s')
        else Inr (Returned, - 1,
                  stp\<lparr>p_data := store (p_data st) 4 got, pi_received := 0\<rparr>, s'))"
proof -
  let ?stp = "st\<lparr>i_payloadSize := U32_AT (p_data st)\<rparr>"
  have l4: "\<not> length (p_data st) < 4"
    using assms(1,3) by simp
  have "\<not> length (p_data st) < 4 + drain_request H ?stp"
    using drain_request_bound(1) [OF assms(1,2), of ?stp] assms(3) by simp
  then have ri: "recv_into 4 (drain_request H ?stp) (p_data st) s =
      (case tls_Recv s (drain_request H ?stp) of
         (i_ret, got, s') \<Rightarrow> Inr (i_ret, store (p_data st) 4 got, s'))"
    by (simp add: recv_into_def)
  show ?thesis
    unfolding recv_payload_def
    apply (simp only: l4 if_False Let_def)
    apply (simp add: assms(4) ri split: prod.splits)
    done
qed

lemma recv_payload_keep_unfold:
  assumes "4 \<le> PACKET_MAX_LEN H" "PACKET_MAX_LEN H < 4294967296"
    and "length (p_data st) = PACKET_MAX_LEN H"
    and "\<not> of_nat (PACKET_MAX_LEN H) - 4 < U32_AT (p_data st)"
    and "4 \<le> pi_received st" "unat (pi_received st) \<le> 4 + unat (U32_AT (p_data st))"
  shows "recv_payload H st s =
     (let stp = st\<lparr>i_payloadSize := U32_AT (p_data st)\<rparr> in
      case tls_Recv s (payload_request stp) of (i_ret, got, s') \<Rightarrow>
        if i_ret \<le> 0
        then Inr (Returned, i_ret,
                  stp\<lparr>p_data := store (p_data st) (unat (pi_received st)) got\<rparr>, s')
        else if pi_received st + word_of_int i_ret < U32_AT (p_data st) + 4
        then Inr (Returned, i_ret,
                  stp\<lparr>p_data := store (p_data st) (unat (pi_received st)) got,
                       pi_received := pi_received st + word_of_int i_ret\<rparr>, s')
        else if pi_received st + word_of_int i_ret \<noteq> U32_AT (p_data st) + 4
        then Inl AssertionFailed
        else Inr (FellThrough, i_ret,
                  stp\<lparr>p_data := store (p_data st) (unat (pi_received st)) got,
                       pi_received := 0, b_msgReceived := True\<rparr>, s'))"
    and "unat (pi_received st) + payload_request (st\<lparr>i_payloadSize := U32_AT (p_data st)\<rparr>)
           = 4 + unat (U32_AT (p_data st))"
    and "4 + unat (U32_AT (p_data st)) \<le> PACKET_MAX_LEN H"
proof -
  let ?stp = "st\<lparr>i_payloadSize := U32_AT (p_data st)\<rparr>"
  have l4: "\<not> length (p_data st) < 4"
    using assms(1,3) by simp
  have mx: "unat (of_nat (PACKET_MAX_LEN H) - 4 :: 32 word) = PACKET_MAX_LEN H - 4"
    using assms(1,2) by (rule unat_max_payload)
  show le: "4 + unat (U32_AT (p_data st)) \<le> PACKET_MAX_LEN H"
    using assms(1,4) mx by (simp add: word_less_nat_alt)
  have pr: "payload_request ?stp = unat (U32_AT (p_data st)) + 4 - unat (pi_received st)"
    unfolding payload_request_def using unat_payload_rest [OF assms(5,6)] by simp
  show sum: "unat (pi_received st) + payload_request ?stp = 4 + unat (U32_AT (p_data st))"
    using pr assms(6) by simp
  have "\<not> length (p_data st) < unat (pi_received st) + payload_request ?stp"
    using sum le assms(3) by simp
  then have ri: "recv_into (unat (pi_received st)) (payload_request ?stp) (p_data st) s =
      (case tls_Recv s (payload_request ?stp) of
         (i_ret, got, s') \<Rightarrow> Inr (i_ret, store (p_data st) (unat (pi_received st)) got, s'))"
    by (simp add: recv_into_def)
  show "recv_payload H st s =
     (let stp = st\<lparr>i_payloadSize := U32_AT (p_data st)\<rparr> in
      case tls_Recv s (payload_request stp) of (i_ret, got, s') \<Rightarrow>
        if i_ret \<le> 0
        then Inr (Returned, i_ret,
                  stp\<lparr>p_data := store (p_data st) (unat (pi_received st)) got\<rparr>, s')
        else if pi_received st + word_of_int i_ret < U32_AT (p_data st) + 4
        then Inr (Returned, i_ret,
                  stp\<lparr>p_data := store (p_data st) (unat (pi_received st)) got,
                       pi_received := pi_received st + word_of_int i_ret\<rparr>, s')
        else if pi_received st + word_of_int i_ret \<noteq> U32_AT (p_data st) + 4
        then Inl AssertionFailed
        else Inr (FellThrough, i_ret,
                  stp\<lparr>p_data := store (p_data st) (unat (pi_received st)) got,
                       pi_received := 0, b_msgReceived := True\<rparr>, s'))"
    unfolding recv_payload_def
    apply (simp only: l4 if_False Let_def)
    apply (simp add: assms(4) ri split: prod.splits)
    done
qed

lemma recv_payload_safe:
  assumes "4 \<le> PACKET_MAX_LEN H" "PACKET_MAX_LEN H < 4294967296"
    and "consistent H st" "4 \<le> pi_received st"
  shows "\<exists>e i st' s'. recv_payload H st s = Inr (e, i, st', s') \<and> consistent H st'"
proof -
  let ?p = "U32_AT (p_data st)"
  let ?r = "pi_received st"
  let ?stp = "st\<lparr>i_payloadSize := ?p\<rparr>"
  have len: "length (p_data st) = PACKET_MAX_LEN H"
    and acc: "unat ?r \<le> 4 + unat ?p"
    using assms(3,4) by (simp_all add: consistent_def)
  have r4: "4 \<le> unat ?r"
    using assms(4) by (simp add: word_le_nat_alt)
  have x: "unat (?p - (?r - 4)) = unat ?p + 4 - unat ?r"
    using assms(4) acc by (rule unat_payload_rest)
  show ?thesis
  proof (cases "of_nat (PACKET_MAX_LEN H) - 4 < ?p")
    case True
    note un = recv_payload_drain_unfold [OF assms(1,2) len True, of s]
    obtain i got s' where t: "tls_Recv s (drain_request H ?stp) = (i, got, s')"
      by (cases "tls_Recv s (drain_request H ?stp)") auto
    note tr = tls_Recv_result [OF t]
    note db = drain_request_bound [OF assms(1,2), of ?stp]
    have fit: "4 + length got \<le> length (p_data st)"
      using tr(1) db(1) len by simp
    have lb: "length (store (p_data st) 4 got) = PACKET_MAX_LEN H"
      using fit len by (simp add: length_store)
    have ub: "U32_AT (store (p_data st) 4 got) = ?p"
      using fit by (simp add: U32_AT_store)
    show ?thesis
    proof (cases "i \<le> 0")
      case True
      have "consistent H (?stp\<lparr>p_data := store (p_data st) 4 got\<rparr>)"
        using acc lb ub by (simp add: consistent_def)
      then show ?thesis
        using un t True by (simp add: Let_def)
    next
      case False
      then have i: "i = int (length got)"
        using tr(2) by simp
      have "unat (?r + of_nat (length got)) \<le> unat ?r + length got"
        by (rule unat_add_of_nat_le)
      also have "\<dots> \<le> 4 + unat ?p"
        using tr(1) db(2) x acc by simp
      finally have "consistent H (?stp\<lparr>p_data := store (p_data st) 4 got,
                       pi_received := ?r + word_of_int i\<rparr>)"
        using lb ub by (simp add: consistent_def i)
      moreover have "consistent H (?stp\<lparr>p_data := store (p_data st) 4 got, pi_received := 0\<rparr>)"
        using lb by (simp add: consistent_def)
      ultimately show ?thesis
        using un t False by (simp add: Let_def)
    qed
  next
    case False
    note un = recv_payload_keep_unfold [OF assms(1,2) len False assms(4) acc]
    obtain i got s' where t: "tls_Recv s (payload_request ?stp) = (i, got, s')"
      by (cases "tls_Recv s (payload_request ?stp)") auto
    note tr = tls_Recv_result [OF t]
    have fit: "unat ?r + length got \<le> 4 + unat ?p" "4 + unat ?p \<le> length (p_data st)"
      using tr(1) un(2,3) len by simp_all
    have lb: "length (store (p_data st) (unat ?r) got) = PACKET_MAX_LEN H"
      using fit len by (simp add: length_store)
    have ub: "U32_AT (store (p_data st) (unat ?r) got) = ?p"
      using fit r4 by (simp add: U32_AT_store)
    show ?thesis
    proof (cases "i \<le> 0")
      case True
      have "consistent H (?stp\<lparr>p_data := store (p_data st) (unat ?r) got\<rparr>)"
        using acc lb ub by (simp add: consistent_def)
      then show ?thesis
        using un(1) t True by (simp add: Let_def)
    next
      case False
      then have i: "i = int (length got)"
        using tr(2) by simp
      have small: "unat ?r + length got < 4294967296" "unat ?p + 4 < 4294967296"
        using fit un(3) assms(2) by simp_all
      have ur: "unat (?r + of_nat (length got)) = unat ?r + length got"
        using small(1) by (rule unat_add_of_nat)
      have up: "unat (?p + 4) = unat ?p + 4"
        using small(2) by (rule unat_add_four)
      have c1: "consistent H (?stp\<lparr>p_data := store (p_data st) (unat ?r) got,
                       pi_received := ?r + word_of_int i\<rparr>)"
        using lb ub fit ur by (simp add: consistent_def i)
      have c2: "consistent H (?stp\<lparr>p_data := store (p_data st) (unat ?r) got,
                       pi_received := 0, b_msgReceived := True\<rparr>)"
        using lb by (simp add: consistent_def)
      have as: "\<not> ?r + word_of_int i < ?p + 4 \<Longrightarrow> ?r + word_of_int i = ?p + 4"
        using fit ur up by (simp add: i word_less_nat_alt word_unat_eq_iff)
      show ?thesis
      proof (cases "?r + word_of_int i < ?p + 4")
        case True
        then show ?thesis
          using un(1) t False c1 by (simp add: Let_def)
      next
        case lt: False
        then show ?thesis
          using un(1) t False c2 as by (simp add: Let_def)
      qed
    qed
  qed
qed

lemma recv_data_safe:
  assumes "4 \<le> PACKET_MAX_LEN H" "PACKET_MAX_LEN H < 4294967296" "consistent H st"
  shows "\<exists>e i st' s'. recv_data H st s = Inr (e, i, st', s') \<and> consistent H st'"
proof -
  have len: "length (p_data st) = PACKET_MAX_LEN H"
    using assms(3) by (simp add: consistent_def)
  then have "4 \<le> length (p_data st)"
    using assms(1) by simp
  from recv_header_safe [OF this, of s]
  obtain e i st1 s1 where h: "recv_header st s = Inr (e, i, st1, s1)"
    "length (p_data st1) = length (p_data st)"
    "if e = Returned then pi_received st1 < 4
     else if pi_received st < 4 then pi_received st1 = 4 else st1 = st"
    by blast
  show ?thesis
  proof (cases e)
    case Returned
    then have "\<not> 4 \<le> pi_received st1"
      using h(3) by (simp add: not_le)
    then have "consistent H st1"
      using h(2) len by (simp add: consistent_def)
    then show ?thesis
      using h(1) Returned by (simp add: recv_data_def)
  next
    case FellThrough
    have c: "consistent H st1 \<and> 4 \<le> pi_received st1"
    proof (cases "pi_received st < 4")
      case True
      then have "pi_received st1 = 4"
        using h(3) FellThrough by simp
      then show ?thesis
        using h(2) len by (simp add: consistent_def)
    next
      case False
      then have "st1 = st"
        using h(3) FellThrough by simp
      then show ?thesis
        using assms(3) False by (simp add: not_less)
    qed
    from recv_payload_safe [OF assms(1,2), of st1 s1] c
    obtain e' i' st' s' where "recv_payload H st1 s1 = Inr (e', i', st', s')" "consistent H st'"
      by blast
    then show ?thesis
      using h(1) FellThrough by (simp add: recv_data_def)
  qed
qed

lemma keepalive_consistent:
  "consistent H (snd (keepalive H val st)) = consistent H st"
  by (simp add: keepalive_def consistent_def)

lemma recvPacket_safe:
  assumes "4 \<le> PACKET_MAX_LEN H" "PACKET_MAX_LEN H < 4294967296" "consistent H st"
  shows "\<exists>i_ret st' s'. recvPacket H val st s = Inr (i_ret, st', s') \<and> consistent H st'"
proof (cases "val = PollFailed")
  case True
  then show ?thesis
    using assms(3) by (simp add: recvPacket_def)
next
  case False
  obtain x stk where k: "keepalive H val st = (x, stk)"
    by (cases "keepalive H val st") auto
  have ck: "consistent H stk"
    using keepalive_consistent [of H val st] k assms(3) by simp
  show ?thesis
  proof (cases x)
    case (Some r)
    then show ?thesis
      using False k ck by (simp add: recvPacket_def)
  next
    case None
    show ?thesis
    proof (cases "revents_POLLIN val")
      case True
      from recv_data_safe [OF assms(1,2) ck, of s]
      obtain e i st' s' where "recv_data H stk s = Inr (e, i, st', s')" "consistent H st'"
        by blast
      then show ?thesis
        using False k None True by (cases e) (simp_all add: recvPacket_def)
    next
      case no: False
      then show ?thesis
        using False k None ck by (simp add: recvPacket_def)
    qed
  qed
qed

text \<open>
  C10. With \<open>PACKET_MAX_LEN\<close> at least 4 and a 32-bit value, a call of
  \<^verbatim>\<open>recvPacket\<close> on a consistent accumulator never reads past the buffer and
  never fails the assertion of line 236, whatever the poll and the peer answer, and
  it leaves the accumulator consistent. A header read ends at offset
  \<open>PACKET_HEADER_LEN\<close>; the read of a payload that is kept ends at
  \<open>PACKET_HEADER_LEN\<close> plus the payload length, which is at most
  \<open>PACKET_MAX_LEN\<close>; the read of a payload that is dropped starts at
  \<open>PACKET_HEADER_LEN\<close> and is at most \<open>PACKET_MAX_LEN - PACKET_HEADER_LEN\<close> long.
\<close>

theorem recvPacket_in_bounds:
  assumes "4 \<le> PACKET_MAX_LEN H" and "PACKET_MAX_LEN H < 4294967296" and "consistent H st"
  shows "(\<exists>i_ret st' s'. recvPacket H val st s = Inr (i_ret, st', s') \<and> consistent H st')
       \<and> (pi_received st < 4 \<longrightarrow>
            unat (pi_received st) + header_request st = PACKET_HEADER_LEN)
       \<and> (4 \<le> pi_received st \<and> i_payloadSize st = U32_AT (p_data st)
            \<and> \<not> of_nat (PACKET_MAX_LEN H) - 4 < i_payloadSize st \<longrightarrow>
            unat (pi_received st) + payload_request st
              = PACKET_HEADER_LEN + unat (i_payloadSize st)
            \<and> PACKET_HEADER_LEN + unat (i_payloadSize st) \<le> PACKET_MAX_LEN H)
       \<and> PACKET_HEADER_LEN + drain_request H st \<le> PACKET_MAX_LEN H"
proof (intro conjI impI)
  show "\<exists>i_ret st' s'. recvPacket H val st s = Inr (i_ret, st', s') \<and> consistent H st'"
    using assms by (rule recvPacket_safe)
  show "PACKET_HEADER_LEN + drain_request H st \<le> PACKET_MAX_LEN H"
    using drain_request_bound(1) [OF assms(1,2), of st] by (simp add: PACKET_HEADER_LEN_def)
  show "unat (pi_received st) + header_request st = PACKET_HEADER_LEN" if "pi_received st < 4"
    unfolding header_request_def PACKET_HEADER_LEN_def using that by (rule unat_header_rest)
next
  assume a: "4 \<le> pi_received st \<and> i_payloadSize st = U32_AT (p_data st)
            \<and> \<not> of_nat (PACKET_MAX_LEN H) - 4 < i_payloadSize st"
  then have r4: "4 \<le> pi_received st"
    and a2: "i_payloadSize st = U32_AT (p_data st)"
    and a3: "\<not> of_nat (PACKET_MAX_LEN H) - 4 < i_payloadSize st"
    by blast+
  have len: "length (p_data st) = PACKET_MAX_LEN H"
    and acc: "unat (pi_received st) \<le> 4 + unat (U32_AT (p_data st))"
    using assms(3) r4 by (simp_all add: consistent_def)
  have same: "st\<lparr>i_payloadSize := U32_AT (p_data st)\<rparr> = st"
    using a2 by simp
  have nb: "\<not> of_nat (PACKET_MAX_LEN H) - 4 < U32_AT (p_data st)"
    using a3 unfolding a2 .
  note un = recv_payload_keep_unfold(2,3) [OF assms(1,2) len nb r4 acc]
  show "unat (pi_received st) + payload_request st = PACKET_HEADER_LEN + unat (i_payloadSize st)"
    using un(1) a2 by (simp add: same PACKET_HEADER_LEN_def)
  show "PACKET_HEADER_LEN + unat (i_payloadSize st) \<le> PACKET_MAX_LEN H"
    using un(2) a2 by (simp add: PACKET_HEADER_LEN_def)
qed

subsection \<open>sendMessage followed by recvPacket\<close>

lemma sendMessage_frame: "new_ok E \<Longrightarrow> snd (sendMessage E msg) = Some (frame_of msg)"
  by (simp add: sendMessage_def frame_of_def Let_def)

lemma payload_of_completed:
  assumes "fits H payload"
  shows "payload_of (completed H payload st) = payload"
proof -
  have "length payload < 4294967296"
    using assms unfolding fits_def by linarith
  then have "unat (of_nat (length payload) :: 32 word) = length payload"
    by (rule unat_of_nat32)
  then show ?thesis
    by (simp add: payload_of_def completed_def frame_of_def PACKET_HEADER_LEN_def length_SetDWBE)
qed

lemma recvPacket_whole_frame:
  assumes "fits H payload" "payload \<noteq> []"
    and "length (p_data st) = PACKET_MAX_LEN H" "pi_received st = 0"
  shows "recvPacket H (PollReady True) st (Data (frame_of payload) # tail)
           = Inr (int (length payload), completed H payload st, tail)"
proof -
  let ?F = "frame_of payload"
  let ?n = "length payload"
  have one: "chunks [?F]"
    by (simp add: chunks_def frame_of_def SetDWBE_def)
  have cat: "concat [?F] = take (4 + ?n) ?F"
    by (simp add: length_frame_of)
  from first_call_header [OF assms(1,3,4) one cat, of tail]
  obtain cs' where h: "recvPacket H (PollReady True) st (map Data [?F] @ tail)
                 = recvPacket H (PollReady True)
                     (st\<lparr>p_data := take 4 ?F @ drop 4 (p_data st), pi_received := 4\<rparr>)
                     (map Data cs' @ tail)"
    and cs': "chunks cs'" "concat cs' = take (4 + ?n - 4) (drop 4 ?F)" "length cs' \<le> length [?F]"
    by auto
  have pl: "drop 4 ?F = payload"
    by (simp add: frame_of_def length_SetDWBE)
  have "concat cs' = payload"
    using cs'(2) pl by simp
  then have c1: "cs' = [payload]"
    using cs'(1,3) assms(2) by (cases cs') (auto simp: chunks_def)
  define st4 where "st4 = data_arrived H (st\<lparr>p_data := take 4 ?F @ drop 4 (p_data st),
                                              pi_received := 4\<rparr>)"
  have a: "pi_received st4 = of_nat 4" "p_data st4 = take 4 ?F @ drop 4 (p_data st)"
    by (simp_all add: st4_def data_arrived_def)
  have nl: "\<not> pi_received st4 < 4"
    by (simp add: a(1))
  have tk: "take (length payload) (drop 4 ?F) = payload"
    by (simp add: pl)
  from recv_payload_chunk [OF assms(1) _ _ assms(3) a assms(2) tk, of tail]
  have "recv_payload H st4 (Data payload # tail)
          = Inr (FellThrough, int ?n,
                 st4\<lparr>i_payloadSize := of_nat ?n, p_data := ?F @ drop (4 + ?n) (p_data st),
                     pi_received := 0, b_msgReceived := True\<rparr>, tail)"
    by simp
  moreover have "st4\<lparr>i_payloadSize := of_nat ?n, p_data := ?F @ drop (4 + ?n) (p_data st),
                     pi_received := 0, b_msgReceived := True\<rparr> = completed H payload st"
    by (simp add: st4_def data_arrived_def completed_def)
  ultimately have "recvPacket H (PollReady True)
                     (st\<lparr>p_data := take 4 ?F @ drop 4 (p_data st), pi_received := 4\<rparr>)
                     (Data payload # tail)
                   = Inr (int ?n, completed H payload st, tail)"
    using nl by (simp add: recvPacket_ready st4_def [symmetric] recv_data_payload)
  then show ?thesis
    using h c1 by simp
qed

text \<open>
  C2. \<^verbatim>\<open>sendMessage\<close> hands to \<^verbatim>\<open>tls_Send\<close> the 4-byte big-endian
  length of the serialised message followed by its bytes, and for a message that
  fits, one call of \<^verbatim>\<open>recvPacket\<close> fed exactly that buffer reports a complete
  message with the same bytes and the same size. The bytes \<open>msg\<close> are those of a
  serialised \<^verbatim>\<open>CastMessage\<close>, which are never none at all:
  \<^verbatim>\<open>buildMessage\<close>, the only caller of \<^verbatim>\<open>sendMessage\<close>, sets the protocol
  version, the namespace, the payload type, the source and destination ids and a
  payload in every message it passes on.
\<close>

theorem send_then_receive:
  assumes "new_ok E" and "fits H msg" and "msg \<noteq> []"
    and "length (p_data st) = PACKET_MAX_LEN H" and "pi_received st = 0"
  shows "snd (sendMessage E msg) = Some (frame_of msg)
       \<and> recvPacket H (PollReady True) st [Data (frame_of msg)]
           = Inr (int (length msg), completed H msg st, [])
       \<and> b_msgReceived (completed H msg st)
       \<and> payload_of (completed H msg st) = msg
       \<and> i_payloadSize (completed H msg st) = of_nat (length msg)"
proof (intro conjI)
  show "snd (sendMessage E msg) = Some (frame_of msg)"
    using assms(1) by (rule sendMessage_frame)
  show "recvPacket H (PollReady True) st [Data (frame_of msg)]
           = Inr (int (length msg), completed H msg st, [])"
    using assms(2-5) by (rule recvPacket_whole_frame)
  show "payload_of (completed H msg st) = msg"
    using assms(2) by (rule payload_of_completed)
qed (simp_all add: completed_def)

subsection \<open>Frames that declare too long a payload\<close>

text \<open>
  A frame whose declared length is more than \<open>PACKET_MAX_LEN - PACKET_HEADER_LEN\<close>
  and at most \<open>2^32 - 5\<close> is drained to its last byte, however it is cut into
  chunks: the calls return the sizes of the reads until the one that reaches the
  end of the frame, which resets the count and returns -1, and no message is
  reported. A read that fails during the drain ends the call with its answer.
\<close>

lemma first_call_header_any:
  assumes "4 \<le> length F" "4 \<le> length (p_data st)" "pi_received st = 0"
    and "chunks cs" "concat cs = take j F" "j \<le> length F" "4 \<le> j"
  shows "\<exists>cs'. recvPacket H (PollReady True) st (map Data cs @ tail)
                 = recvPacket H (PollReady True)
                     (st\<lparr>p_data := take 4 F @ drop 4 (p_data st), pi_received := 4\<rparr>)
                     (map Data cs' @ tail)
               \<and> chunks cs' \<and> concat cs' = take (j - 4) (drop 4 F)
               \<and> length cs' \<le> length cs"
proof -
  define st1 where "st1 = data_arrived H st"
  define st4 where "st4 = st\<lparr>p_data := take 4 F @ drop 4 (p_data st), pi_received := 4\<rparr>"
  have a: "pi_received st1 = of_nat 0" "p_data st1 = take 0 F @ drop 0 (p_data st)"
    using assms(3) by (simp_all add: st1_def data_arrived_def)
  have cat: "concat cs = take j (drop 0 F)" using assms(5) by simp
  have jl: "0 + j \<le> length F" using assms(6) by simp
  from recv_header_chunks [OF a(1) _ a(2) assms(1,2,4) cat jl, of tail] assms(7)
  obtain cs' where h: "recv_header st1 (map Data cs @ tail)
                      = Inr (FellThrough, 0,
                             st1\<lparr>p_data := take 4 F @ drop 4 (p_data st), pi_received := 4\<rparr>,
                             map Data cs' @ tail)"
    and cs': "chunks cs'" "concat cs' = take (j - 4) (drop 4 F)" "length cs' \<le> length cs"
    by auto
  have d4: "data_arrived H st4 = st1\<lparr>p_data := take 4 F @ drop 4 (p_data st), pi_received := 4\<rparr>"
    by (simp add: st4_def st1_def data_arrived_def)
  have "\<not> pi_received (data_arrived H st4) < 4"
    by (simp add: d4)
  then have r4: "recv_data H (data_arrived H st4) (map Data cs' @ tail)
               = recv_payload H (data_arrived H st4) (map Data cs' @ tail)"
    by (rule recv_data_payload)
  have r0: "recv_data H st1 (map Data cs @ tail)
              = recv_payload H (data_arrived H st4) (map Data cs' @ tail)"
    by (simp add: recv_data_def h d4)
  have "recvPacket H (PollReady True) st (map Data cs @ tail)
          = recvPacket H (PollReady True) st4 (map Data cs' @ tail)"
    by (simp only: recvPacket_ready st1_def [symmetric] r0 r4)
  then show ?thesis
    using cs' unfolding st4_def by blast
qed

lemma drain_request_at:
  assumes "4 \<le> PACKET_MAX_LEN H" "PACKET_MAX_LEN H < 4294967296"
    and "p + 4 < 4294967296" "4 \<le> r" "r \<le> p + 4"
    and "i_payloadSize st = of_nat p" "pi_received st = of_nat r"
  shows "drain_request H st = min (p + 4 - r) (PACKET_MAX_LEN H - 4)"
proof -
  let ?mx = "of_nat (PACKET_MAX_LEN H) - 4 :: 32 word"
  let ?x = "(of_nat p :: 32 word) - (of_nat r - 4)"
  have mx: "unat ?mx = PACKET_MAX_LEN H - 4"
    using assms(1,2) by (rule unat_max_payload)
  have p: "p < 4294967296" using assms(3) by simp
  have x: "unat ?x = p + 4 - r"
    using payload_request_at [OF p assms(4)] assms(5) by simp
  have "unat (if ?mx < ?x then ?mx else ?x) = min (unat ?x) (unat ?mx)"
    by (simp add: word_less_nat_alt min_def)
  then show ?thesis
    unfolding drain_request_def Let_def assms(6,7) x mx by simp
qed

lemma recv_payload_drain_chunk:
  assumes "4 < PACKET_MAX_LEN H" "PACKET_MAX_LEN H < 4294967296"
    and "PACKET_MAX_LEN H - 4 < p" "p + 4 < 4294967296"
    and "length (p_data st) = PACKET_MAX_LEN H" "U32_AT (p_data st) = of_nat p"
    and "pi_received st = of_nat r" "4 \<le> r" "r < p + 4"
    and "c \<noteq> []" "r + length c \<le> p + 4"
  shows "recv_payload H st (Data c # s) =
     (if length c \<le> PACKET_MAX_LEN H - 4
      then (if r + length c < p + 4
            then Inr (Returned, int (length c),
                      st\<lparr>i_payloadSize := of_nat p, p_data := store (p_data st) 4 c,
                          pi_received := of_nat (r + length c)\<rparr>, s)
            else Inr (Returned, - 1,
                      st\<lparr>i_payloadSize := of_nat p, p_data := store (p_data st) 4 c,
                          pi_received := 0\<rparr>, s))
      else Inr (Returned, int (PACKET_MAX_LEN H - 4),
                st\<lparr>i_payloadSize := of_nat p,
                    p_data := store (p_data st) 4 (take (PACKET_MAX_LEN H - 4) c),
                    pi_received := of_nat (r + (PACKET_MAX_LEN H - 4))\<rparr>,
                Data (drop (PACKET_MAX_LEN H - 4) c) # s))"
proof -
  let ?M = "PACKET_MAX_LEN H"
  let ?stp = "st\<lparr>i_payloadSize := U32_AT (p_data st)\<rparr>"
  have m4: "4 \<le> ?M" using assms(1) by simp
  have pb: "p < 4294967296" "?M - 4 < 4294967296"
    using assms(2,4) by simp_all
  have over: "of_nat ?M - 4 < U32_AT (p_data st)"
    using m4 assms(3) of_nat32_less [OF pb(2,1)]
    by (simp add: assms(6) max_payload_word del: of_nat_diff)
  note un = recv_payload_drain_unfold [OF m4 assms(2,5) over, of "Data c # s"]
  have dr: "drain_request H ?stp = min (p + 4 - r) (?M - 4)"
    by (rule drain_request_at [OF m4 assms(2,4,8)]) (use assms in simp_all)
  have pos: "0 < length c" using assms(10) by simp
  have lt: "((of_nat r :: 32 word) + of_nat k < of_nat p + 4) = (r + k < p + 4)"
    if "r + k \<le> p + 4" for k
  proof -
    have "r + k < 4294967296" "p + 4 < 4294967296"
      using that assms(4) by simp_all
    from of_nat32_less [OF this] show ?thesis by simp
  qed
  show ?thesis
  proof (cases "length c \<le> ?M - 4")
    case True
    then have le: "length c \<le> min (p + 4 - r) (?M - 4)"
      using assms(11) by simp
    show ?thesis
      unfolding un Let_def dr
      using le pos True lt [OF assms(11)] by (simp add: assms(6,7))
  next
    case False
    then have big: "\<not> length c \<le> min (p + 4 - r) (?M - 4)" and m: "min (p + 4 - r) (?M - 4) = ?M - 4"
      using assms(11) by simp_all
    have k: "r + (?M - 4) < p + 4"
      using False assms(11) by simp
    then have k': "r + (?M - 4) \<le> p + 4" by simp
    have mpos: "0 < ?M - 4"
      using assms(1) by simp
    show ?thesis
      unfolding un Let_def dr m
      using False mpos lt [OF k'] k by (simp add: assms(6,7))
  qed
qed

lemma deliver_drain:
  assumes "4 < PACKET_MAX_LEN H" "PACKET_MAX_LEN H < 4294967296"
    and "PACKET_MAX_LEN H - 4 < p" "p + 4 < 4294967296"
    and "length (p_data st) = PACKET_MAX_LEN H" "U32_AT (p_data st) = of_nat p"
    and "pi_received st = of_nat r" "4 \<le> r" "r < p + 4" "\<not> b_msgReceived st"
    and "chunks cs" "length (concat cs) = p + 4 - r" "p + 4 - r \<le> k"
  shows "\<exists>st'. deliver H k st (map Data cs @ tail) = Stopped (- 1) st' tail
           \<and> pi_received st' = 0 \<and> \<not> b_msgReceived st'
           \<and> i_payloadSize st' = of_nat p \<and> length (p_data st') = PACKET_MAX_LEN H"
  using assms(5-)
proof (induction "p + 4 - r" arbitrary: r st cs k rule: less_induct)
  case less
  let ?M = "PACKET_MAX_LEN H"
  from less.prems(5,8) have "cs \<noteq> []" by auto
  then obtain c cs1 where cs: "cs = c # cs1" by (cases cs) auto
  from less.prems(7) cs have c: "c \<noteq> []" and cs1: "chunks cs1"
    by (auto simp: chunks_def)
  have lc: "r + length c \<le> p + 4" and rest: "length (concat cs1) = p + 4 - r - length c"
    using less.prems(5,8) cs by simp_all
  obtain k' where k: "k = Suc k'" and k': "p + 4 - r \<le> Suc k'"
    using less.prems(5,9) by (cases k) auto
  have rb: "r < 4294967296" using less.prems(5) assms(4) by simp
  have pos: "0 < length c" using c by simp
  define st1 where "st1 = data_arrived H st"
  have st1: "length (p_data st1) = ?M" "U32_AT (p_data st1) = of_nat p"
    "pi_received st1 = of_nat r" "p_data st1 = p_data st"
    using less.prems(1,2,3) by (simp_all add: st1_def data_arrived_def)
  have nl: "\<not> pi_received st1 < 4"
    using st1(3) not_less4 [OF less.prems(4) rb] by simp
  note pc = recv_payload_drain_chunk [OF assms(1-4) st1(1,2,3) less.prems(4,5) c lc,
      of "map Data cs1 @ tail"]
  have rp: "recvPacket H (PollReady True) st (map Data cs @ tail)
      = (case recv_payload H st1 (Data c # map Data cs1 @ tail) of
           Inl e \<Rightarrow> Inl e | Inr (x, i_ret, st', s') \<Rightarrow> Inr (i_ret, st', s'))"
    using nl by (simp add: recvPacket_ready recv_data_payload st1_def [symmetric] cs)
  have m4: "4 \<le> length (p_data st)" using less.prems(1) assms(1) by simp
  show ?case
  proof (cases "length c \<le> ?M - 4")
    case True
    then have fitc: "4 + length c \<le> length (p_data st)"
      using less.prems(1) assms(1) by simp
    have ls: "length (store (p_data st) 4 c) = ?M"
      using fitc less.prems(1) by (simp add: length_store)
    have us: "U32_AT (store (p_data st) 4 c) = of_nat p"
      using m4 less.prems(2) by (simp add: U32_AT_store)
    show ?thesis
    proof (cases "r + length c < p + 4")
      case lt: True
      define st2 where "st2 = st1\<lparr>i_payloadSize := of_nat p, p_data := store (p_data st) 4 c,
                          pi_received := of_nat (r + length c)\<rparr>"
      have "recvPacket H (PollReady True) st (map Data cs @ tail)
              = Inr (int (length c), st2, map Data cs1 @ tail)"
        using rp pc True lt by (simp add: st2_def st1(4))
      moreover have nm: "\<not> b_msgReceived st2"
        using less.prems(6) by (simp add: st2_def st1_def data_arrived_def)
      ultimately have step: "deliver H k st (map Data cs @ tail)
                               = deliver H k' st2 (map Data cs1 @ tail)"
        using c by (simp add: k)
      have "\<exists>st'. deliver H k' st2 (map Data cs1 @ tail) = Stopped (- 1) st' tail
           \<and> pi_received st' = 0 \<and> \<not> b_msgReceived st'
           \<and> i_payloadSize st' = of_nat p \<and> length (p_data st') = ?M"
      proof (rule less.hyps)
        show "p + 4 - (r + length c) < p + 4 - r" using pos lt by arith
        show "length (p_data st2) = ?M" using ls by (simp add: st2_def)
        show "U32_AT (p_data st2) = of_nat p" using us by (simp add: st2_def)
        show "pi_received st2 = of_nat (r + length c)" by (simp add: st2_def)
        show "4 \<le> r + length c" using less.prems(4) by simp
        show "r + length c < p + 4" by fact
        show "\<not> b_msgReceived st2" by fact
        show "chunks cs1" by fact
        show "length (concat cs1) = p + 4 - (r + length c)" using rest by simp
        show "p + 4 - (r + length c) \<le> k'" using k' pos lt by arith
      qed
      then show ?thesis using step by simp
    next
      case ge: False
      then have "length (concat cs1) = 0" using rest lc by simp
      then have nil: "cs1 = []"
        using cs1 by (simp add: chunks_concat_nil)
      have "recvPacket H (PollReady True) st (map Data cs @ tail)
              = Inr (- 1, st1\<lparr>i_payloadSize := of_nat p, p_data := store (p_data st) 4 c,
                               pi_received := 0\<rparr>, tail)"
        using rp pc True ge nil by (simp add: st1(4))
      then have "deliver H k st (map Data cs @ tail)
              = Stopped (- 1) (st1\<lparr>i_payloadSize := of_nat p, p_data := store (p_data st) 4 c,
                               pi_received := 0\<rparr>) tail"
        by (simp add: k)
      then show ?thesis
        using ls less.prems(6) by (simp add: st1_def data_arrived_def)
    qed
  next
    case False
    let ?d = "?M - 4"
    have dpos: "0 < ?d" using assms(1) by simp
    have fitd: "4 + length (take ?d c) \<le> length (p_data st)"
      using less.prems(1) assms(1) by simp
    have ls: "length (store (p_data st) 4 (take ?d c)) = ?M"
      using fitd less.prems(1) by (simp add: length_store)
    have us: "U32_AT (store (p_data st) 4 (take ?d c)) = of_nat p"
      using m4 less.prems(2) by (simp add: U32_AT_store)
    have lt: "r + ?d < p + 4" using False lc by simp
    define st2 where "st2 = st1\<lparr>i_payloadSize := of_nat p,
                          p_data := store (p_data st) 4 (take ?d c),
                          pi_received := of_nat (r + ?d)\<rparr>"
    have "recvPacket H (PollReady True) st (map Data cs @ tail)
            = Inr (int ?d, st2, map Data (drop ?d c # cs1) @ tail)"
      using rp pc False by (simp add: st2_def st1(4))
    moreover have nm: "\<not> b_msgReceived st2"
      using less.prems(6) by (simp add: st2_def st1_def data_arrived_def)
    ultimately have step: "deliver H k st (map Data cs @ tail)
                             = deliver H k' st2 (map Data (drop ?d c # cs1) @ tail)"
      using dpos by (simp add: k)
    have "\<exists>st'. deliver H k' st2 (map Data (drop ?d c # cs1) @ tail) = Stopped (- 1) st' tail
         \<and> pi_received st' = 0 \<and> \<not> b_msgReceived st'
         \<and> i_payloadSize st' = of_nat p \<and> length (p_data st') = ?M"
    proof (rule less.hyps)
      show "p + 4 - (r + ?d) < p + 4 - r" using dpos lt by arith
      show "length (p_data st2) = ?M" using ls by (simp add: st2_def)
      show "U32_AT (p_data st2) = of_nat p" using us by (simp add: st2_def)
      show "pi_received st2 = of_nat (r + ?d)" by (simp add: st2_def)
      show "4 \<le> r + ?d" using less.prems(4) by simp
      show "r + ?d < p + 4" by fact
      show "\<not> b_msgReceived st2" by fact
      show "chunks (drop ?d c # cs1)" using False cs1 by (auto simp: chunks_def)
      show "length (concat (drop ?d c # cs1)) = p + 4 - (r + ?d)"
        using rest False lc by simp
      show "p + 4 - (r + ?d) \<le> k'" using k' dpos lt by arith
    qed
    then show ?thesis using step by simp
  qed
qed

lemma oversized_frame_drained:
  assumes "4 < PACKET_MAX_LEN H" "PACKET_MAX_LEN H < 4294967296"
    and "PACKET_MAX_LEN H - 4 < length body" "length body + 4 < 4294967296"
    and "length (p_data st) = PACKET_MAX_LEN H" "pi_received st = 0" "\<not> b_msgReceived st"
    and "chunks cs" "concat cs = frame_of body" "4 + length body \<le> k"
  shows "\<exists>st'. deliver H k st (map Data cs @ tail) = Stopped (- 1) st' tail
           \<and> pi_received st' = 0 \<and> \<not> b_msgReceived st'
           \<and> i_payloadSize st' = of_nat (length body)
           \<and> length (p_data st') = PACKET_MAX_LEN H"
proof -
  let ?F = "frame_of body"
  let ?p = "length body"
  obtain k' where k: "k = Suc k'"
    using assms(10) by (cases k) auto
  have f4: "4 \<le> length ?F" by (simp add: length_frame_of)
  have b4: "4 \<le> length (p_data st)" using assms(1,5) by simp
  have cat: "concat cs = take (length ?F) ?F" using assms(9) by simp
  from first_call_header_any [OF f4 b4 assms(6,8) cat _ f4, of H tail]
  obtain cs' where h: "recvPacket H (PollReady True) st (map Data cs @ tail)
                 = recvPacket H (PollReady True)
                     (st\<lparr>p_data := take 4 ?F @ drop 4 (p_data st), pi_received := 4\<rparr>)
                     (map Data cs' @ tail)"
    and cs': "chunks cs'" "concat cs' = take (length ?F - 4) (drop 4 ?F)"
    by auto
  define st4 where "st4 = st\<lparr>p_data := take 4 ?F @ drop 4 (p_data st), pi_received := 4\<rparr>"
  have eq: "deliver H k st (map Data cs @ tail) = deliver H k st4 (map Data cs' @ tail)"
    unfolding k st4_def using h by (rule deliver_cong)
  have u: "U32_AT (p_data st4) = of_nat ?p"
    using U32_AT_take [of 4 ?F "drop 4 (p_data st)"] f4
    by (simp add: st4_def frame_of_def U32_AT_SetDWBE)
  have "\<exists>st'. deliver H k st4 (map Data cs' @ tail) = Stopped (- 1) st' tail
           \<and> pi_received st' = 0 \<and> \<not> b_msgReceived st'
           \<and> i_payloadSize st' = of_nat ?p \<and> length (p_data st') = PACKET_MAX_LEN H"
  proof (rule deliver_drain [OF assms(1-4)])
    show "length (p_data st4) = PACKET_MAX_LEN H"
      using assms(5) b4 f4 by (simp add: st4_def)
    show "U32_AT (p_data st4) = of_nat ?p" by (rule u)
    show "pi_received st4 = of_nat 4" by (simp add: st4_def)
    show "(4::nat) \<le> 4" by simp
    show "4 < ?p + 4" using assms(3) by arith
    show "\<not> b_msgReceived st4" using assms(7) by (simp add: st4_def)
    show "chunks cs'" by fact
    show "length (concat cs') = ?p + 4 - 4" using cs'(2) by (simp add: length_frame_of)
    show "?p + 4 - 4 \<le> k" using assms(10) by simp
  qed
  then show ?thesis
    using eq by simp
qed

lemma recv_payload_drain_failure:
  assumes "4 \<le> PACKET_MAX_LEN H" "PACKET_MAX_LEN H < 4294967296"
    and "length (p_data st) = PACKET_MAX_LEN H"
    and "of_nat (PACKET_MAX_LEN H) - 4 < U32_AT (p_data st)"
    and "failure_code b = Some v"
  shows "recv_payload H st (b # s)
           = Inr (Returned, v, st\<lparr>i_payloadSize := U32_AT (p_data st)\<rparr>, s)"
proof -
  have "4 \<le> length (p_data st)" using assms(1,3) by simp
  then have st: "store (p_data st) 4 [] = p_data st"
    by (rule store_nil)
  show ?thesis
    unfolding recv_payload_drain_unfold [OF assms(1-4)]
    using assms(5) by (cases b) (simp_all add: Let_def st)
qed

subsection \<open>Frames that declare no payload\<close>

text \<open>
  Once the header \<open>00 00 00 00\<close> is in the buffer and the count is 4, a call
  asks \<^verbatim>\<open>tls_Recv\<close> for 0 bytes, is answered 0 and returns it: nothing is
  read, the count stays at 4 and no message is reported, whatever is waiting.
\<close>

lemma zero_length_frame_stuck:
  assumes "4 \<le> length (p_data st)" and "pi_received st = 4" and "U32_AT (p_data st) = 0"
    and "c \<noteq> []"
  shows "recvPacket H (PollReady True) st (Data c # s)
           = Inr (0, data_arrived H (st\<lparr>i_payloadSize := 0\<rparr>), Data c # s)"
proof -
  define st1 where "st1 = data_arrived H st"
  have a: "pi_received st1 = 4" "p_data st1 = p_data st"
    using assms(2) by (simp_all add: st1_def data_arrived_def)
  have nl: "\<not> pi_received st1 < 4"
    by (simp add: a(1))
  have st: "store (p_data st) 4 [] = p_data st"
    using assms(1) by (rule store_nil)
  have "recv_payload H st1 (Data c # s)
          = Inr (Returned, 0, st1\<lparr>i_payloadSize := 0\<rparr>, Data c # s)"
    using assms(1,3,4)
    by (simp add: recv_payload_def Let_def a payload_request_def recv_into_def st)
  moreover have "st1\<lparr>i_payloadSize := 0\<rparr> = data_arrived H (st\<lparr>i_payloadSize := 0\<rparr>)"
    by (simp add: st1_def data_arrived_def)
  ultimately show ?thesis
    using nl by (simp add: recvPacket_ready recv_data_payload st1_def [symmetric])
qed

subsection \<open>Instances\<close>

lemma example_fits: "fits example_h [1, 2, 3]"
  by (simp add: fits_def example_h_def)

lemma example_frame: "frame_of [1, 2, 3] = [0, 0, 0, 3, 1, 2, 3]"
  by (simp add: frame_of_def SetDWBE_def)

lemma example_recv_ready:
  "length (p_data example_recv) = PACKET_MAX_LEN example_h" "pi_received example_recv = 0"
  "\<not> b_msgReceived example_recv"
  by (simp_all add: example_recv_def example_h_def)

theorem send_then_receive_witness:
  "snd (sendMessage example_send [1, 2, 3]) = Some (frame_of [1, 2, 3])
   \<and> recvPacket example_h (PollReady True) example_recv [Data (frame_of [1, 2, 3])]
       = Inr (int (length [1, 2, 3 :: byte]), completed example_h [1, 2, 3] example_recv, [])
   \<and> b_msgReceived (completed example_h [1, 2, 3] example_recv)
   \<and> payload_of (completed example_h [1, 2, 3] example_recv) = [1, 2, 3]
   \<and> i_payloadSize (completed example_h [1, 2, 3] example_recv) = of_nat (length [1, 2, 3 :: byte])"
proof -
  have ok: "new_ok example_send" by (simp add: example_send_def)
  have ne: "[1, 2, 3 :: byte] \<noteq> []" by simp
  show ?thesis
    by (rule send_then_receive [OF ok example_fits ne example_recv_ready(1,2)])
qed

lemma chunked_reassembly_example:
  "deliver example_h 4 example_recv (map Data [[0], [0, 0], [3, 1], [2, 3]] @ [])
     = Complete (completed example_h [1, 2, 3] example_recv) []
   \<and> deliver example_h 4 example_recv (map Data [[0], [0, 0], [3, 1], [2, 3]] @ [])
     = deliver example_h (Suc 0) example_recv (Data (frame_of [1, 2, 3]) # [])
   \<and> deliver example_h 4 example_recv (map Data [[0], [0, 0], [3, 1]] @ Closed # [])
     = Stopped 0 (interrupted example_h [1, 2, 3] 5 example_recv) []"
proof -
  have ne: "[1, 2, 3 :: byte] \<noteq> []" by simp
  have c1: "chunks [[0], [0, 0], [3, 1], [2, 3 :: byte]]"
    and c2: "chunks [[0], [0, 0], [3, 1 :: byte]]"
    by (simp_all add: chunks_def)
  have a1: "concat [[0], [0, 0], [3, 1], [2, 3 :: byte]] = frame_of [1, 2, 3]
            \<and> length [[0], [0, 0], [3, 1], [2, 3 :: byte]] \<le> 4"
    by (simp add: example_frame)
  have a2: "concat [[0], [0, 0], [3, 1 :: byte]] = take 5 (frame_of [1, 2, 3])
            \<and> 5 < 4 + length [1, 2, 3 :: byte]
            \<and> failure_code Closed = Some 0 \<and> length [[0], [0, 0], [3, 1 :: byte]] < 4"
    by (simp add: example_frame)
  note t1 = chunked_reassembly [OF example_fits ne example_recv_ready c1,
      where k = 4 and tail = "[]"]
  note t2 = chunked_reassembly [OF example_fits ne example_recv_ready c2,
      where k = 4 and tail = "[]" and j = 5 and b = Closed and v = 0]
  from t1 a1 t2 a2 show ?thesis
    by blast
qed

lemma interrupted_frame_resumes_example:
  "deliver example_h 4 example_recv (map Data [[0], [0]] @ Closed # [])
     = Stopped 0 (interrupted example_h [1, 2, 3] 2 example_recv) []
   \<and> deliver example_h 4 (interrupted example_h [1, 2, 3] 2 example_recv)
       (map Data [[0], [3, 1, 2], [3]] @ [])
     = Complete (completed example_h [1, 2, 3] example_recv) []"
proof -
  have ne: "[1, 2, 3 :: byte] \<noteq> []" by simp
  have c1: "chunks [[0], [0 :: byte]]" and c2: "chunks [[0], [3, 1, 2], [3 :: byte]]"
    by (simp_all add: chunks_def)
  have a1: "concat [[0], [0 :: byte]] = take 2 (frame_of [1, 2, 3])
            \<and> 2 < 4 + length [1, 2, 3 :: byte]
            \<and> failure_code Closed = Some 0 \<and> length [[0], [0 :: byte]] < 4"
    by (simp add: example_frame)
  have a2: "concat [[0], [3, 1, 2], [3 :: byte]] = drop 2 (frame_of [1, 2, 3])"
    by (simp add: example_frame)
  note t1 = chunked_reassembly [OF example_fits ne example_recv_ready c1,
      where k = 4 and tail = "[]" and j = 2 and b = Closed and v = 0]
  have t2: "deliver example_h 4 (interrupted example_h [1, 2, 3] 2 example_recv)
       (map Data [[0], [3, 1, 2], [3]] @ [])
     = Complete (completed example_h [1, 2, 3] example_recv) []"
    by (rule interrupted_frame_resumes [OF example_fits ne example_recv_ready(1,3) _ c2])
      (simp_all add: example_frame)
  from t1 a1 t2 show ?thesis
    by blast
qed

theorem recvPacket_in_bounds_witness:
  "(\<exists>i_ret st' s'. recvPacket example_h (PollReady True) example_recv_mid [Data [2, 3]]
                      = Inr (i_ret, st', s') \<and> consistent example_h st')
   \<and> unat (pi_received example_recv) + header_request example_recv = PACKET_HEADER_LEN
   \<and> unat (pi_received example_recv_mid) + payload_request example_recv_mid
       = PACKET_HEADER_LEN + unat (i_payloadSize example_recv_mid)
   \<and> PACKET_HEADER_LEN + unat (i_payloadSize example_recv_mid) \<le> PACKET_MAX_LEN example_h
   \<and> PACKET_HEADER_LEN + drain_request example_h example_recv_mid \<le> PACKET_MAX_LEN example_h"
proof -
  have m: "4 \<le> PACKET_MAX_LEN example_h" "PACKET_MAX_LEN example_h < 4294967296"
    by (simp_all add: example_h_def)
  have c0: "consistent example_h example_recv"
    by (simp add: consistent_def example_h_def example_recv_def)
  have c5: "consistent example_h example_recv_mid"
    by (simp add: consistent_def example_h_def example_recv_mid_def example_recv_def U32_AT_def)
  have h0: "pi_received example_recv < 4"
    by (simp add: example_recv_def)
  have h5: "4 \<le> pi_received example_recv_mid
            \<and> i_payloadSize example_recv_mid = U32_AT (p_data example_recv_mid)
            \<and> \<not> of_nat (PACKET_MAX_LEN example_h) - 4 < i_payloadSize example_recv_mid"
    by (simp add: example_h_def example_recv_mid_def example_recv_def U32_AT_def)
  note t0 = recvPacket_in_bounds [OF m c0, where val = "PollReady True" and s = "[]"]
  note t5 = recvPacket_in_bounds [OF m c5, where val = "PollReady True" and s = "[Data [2, 3]]"]
  from t0 h0 t5 h5 show ?thesis
    by blast
qed

text \<open>
  C3 (the code departs from the claim). The header \<open>00 00 00 00\<close> declares a
  payload of 0 bytes, a length that is at most the maximum. The call that has
  received the four bytes asks \<^verbatim>\<open>tls_Recv\<close> for 0 more (line 228), is
  answered 0 and returns it at line 230, before the test of line 233 that would
  report the message and reset the count: \<open>b_msgReceived\<close> stays false and the
  count stays at 4. The next call, started from these variables, does the same and
  leaves them and the waiting bytes as they were, and so does every call after it:
  the frame that follows, here one with the payload \<open>01 02 03\<close>, is never read.
\<close>

theorem zero_length_frame_never_completes:
  "recvPacket example_h (PollReady True) example_recv
       [Data [0, 0, 0, 0], Data [0, 0, 0, 3, 1, 2, 3]]
     = Inr (0, example_recv\<lparr>pi_received := 4\<rparr>, [Data [0, 0, 0, 3, 1, 2, 3]])
   \<and> recvPacket example_h (PollReady True) (example_recv\<lparr>pi_received := 4\<rparr>)
       [Data [0, 0, 0, 3, 1, 2, 3]]
     = Inr (0, example_recv\<lparr>pi_received := 4\<rparr>, [Data [0, 0, 0, 3, 1, 2, 3]])
   \<and> \<not> b_msgReceived (example_recv\<lparr>pi_received := 4\<rparr>)"
  by (simp add: recvPacket_def keepalive_def recv_data_def recv_header.simps recv_into_def
      header_request_def store_def recv_payload_def U32_AT_def payload_request_def
      example_h_def example_recv_def Let_def)

text \<open>
  C4 (the code departs from the claim). The header \<open>FF FF FF FF\<close> declares
  4294967295 bytes. After the first byte of that payload the call reports the
  oversized frame (-1) and resets the count to 0: the sum
  \<open>i_payloadSize + PACKET_HEADER_LEN\<close> of line 219 is 3 in 32-bit arithmetic, so the
  frame counts as drained. The bytes that follow, here \<open>09 09\<close>, are still
  waiting and will be read as the next header.
\<close>

theorem oversized_length_wraps:
  "recvPacket example_h (PollReady True) example_recv
       [Data [255, 255, 255, 255, 7], Data [9, 9]]
     = Inr (- 1,
            example_recv\<lparr>i_payloadSize := 4294967295, pi_received := 0,
                         p_data := [255, 255, 255, 255, 7, 0, 0, 0, 0, 0, 0, 0, 0, 0, 0, 0]\<rparr>,
            [Data [9, 9]])"
  by (simp add: recvPacket_def keepalive_def recv_data_def recv_header.simps recv_into_def
      header_request_def store_def recv_payload_def U32_AT_def drain_request_def
      example_h_def example_recv_def Let_def)

end
